theory Spec2Isabelle
  imports Main "HOL-Library.Sublist"
begin

unbundle bit_operations_syntax

section \<open>Data model\<close>

text \<open>
  The script \<^verbatim>\<open>scripts/check_transparent_icons.py\<close> reads a PNG file into a Python
  \<^verbatim>\<open>bytes\<close> object and decides whether the image has a non-opaque pixel.
  An element of \<^verbatim>\<open>bytes\<close> or \<^verbatim>\<open>bytearray\<close> is a Python integer in
  \<^verbatim>\<open>range(256)\<close>; it is modelled as a natural number, and every \<^verbatim>\<open>& 0xFF\<close>
  of the source is written out.  Python's unbounded integers are \<^typ>\<open>int\<close> where a
  value can be negative (the Paeth predictor) and \<^typ>\<open>nat\<close> for lengths and indices.
\<close>

type_synonym byte = nat
type_synonym bytes = "byte list"

text \<open>
  Every \<^verbatim>\<open>raise\<close> of the source is a value.  \<open>ValueError\<close> carries the message the
  source formats; \<open>StructError\<close> is \<^verbatim>\<open>struct.error\<close> raised by \<^verbatim>\<open>struct.unpack\<close> on a
  buffer of the wrong size, \<open>ZlibError\<close> is \<^verbatim>\<open>zlib.error\<close> raised by
  \<^verbatim>\<open>zlib.decompress\<close>, and \<open>IndexError\<close> is an index out of range.
\<close>

datatype exn =
    ValueError string
  | StructError string
  | ZlibError string
  | IndexError string

text \<open>\<^verbatim>\<open>str(exc)\<close>: the message of the exception.\<close>

fun exn_str :: "exn \<Rightarrow> string" where
  "exn_str (ValueError m) = m"
| "exn_str (StructError m) = m"
| "exn_str (ZlibError m) = m"
| "exn_str (IndexError m) = m"

text \<open>Sequencing of a computation that may raise.\<close>

definition ebind :: "exn + 'a \<Rightarrow> ('a \<Rightarrow> exn + 'b) \<Rightarrow> exn + 'b" where
  "ebind m f = (case m of Inl e \<Rightarrow> Inl e | Inr v \<Rightarrow> f v)"

text \<open>\<^verbatim>\<open>xs[i]\<close> for a non-negative index: raises IndexError out of range.\<close>

definition getitem :: "'a list \<Rightarrow> nat \<Rightarrow> exn + 'a" where
  "getitem xs i = (if i < length xs then Inr (xs ! i) else Inl (IndexError ''index out of range''))"

text \<open>\<^verbatim>\<open>xs[i] = v\<close> on a bytearray, for a non-negative index.\<close>

definition setitem :: "'a list \<Rightarrow> nat \<Rightarrow> 'a \<Rightarrow> exn + 'a list" where
  "setitem xs i v =
     (if i < length xs then Inr (xs[i := v]) else Inl (IndexError ''bytearray index out of range''))"

text \<open>\<^verbatim>\<open>xs[a:b]\<close> for non-negative bounds: clipped to the list, never raises.\<close>

definition slice :: "'a list \<Rightarrow> nat \<Rightarrow> nat \<Rightarrow> 'a list" where
  "slice xs a b = take (b - a) (drop a xs)"

text \<open>\<^verbatim>\<open>for x in xs: s = body(x, s)\<close>, stopping at the first exception.\<close>

fun for_loop :: "nat list \<Rightarrow> (nat \<Rightarrow> 's \<Rightarrow> exn + 's) \<Rightarrow> 's \<Rightarrow> exn + 's" where
  "for_loop [] body s = Inr s"
| "for_loop (x # xs) body s =
     (case body x s of Inl e \<Rightarrow> Inl e | Inr s' \<Rightarrow> for_loop xs body s')"

text \<open>\<^verbatim>\<open>str(n)\<close> for a non-negative integer: its decimal digits.\<close>

function str_nat :: "nat \<Rightarrow> string" where
  "str_nat n =
     (if n < 10 then [''0123456789'' ! n]
      else str_nat (n div 10) @ [''0123456789'' ! (n mod 10)])"
  by pat_completeness auto
termination
  by (relation "measure (\<lambda>n. n)") auto

declare str_nat.simps [simp del]

section \<open>The Paeth predictor\<close>

text \<open>
  \<^verbatim>\<open>
  def _paeth(a: int, b: int, c: int) -> int:
      p = a + b - c
      pa = abs(p - a)
      pb = abs(p - b)
      pc = abs(p - c)
      if pa <= pb and pa <= pc:
          return a
      if pb <= pc:
          return b
      return c
  \<close>
\<close>

definition paeth :: "int \<Rightarrow> int \<Rightarrow> int \<Rightarrow> int" where
  "paeth a b c =
     (let p = a + b - c;
          pa = \<bar>p - a\<bar>;
          pb = \<bar>p - b\<bar>;
          pc = \<bar>p - c\<bar>
      in if pa \<le> pb \<and> pa \<le> pc then a
         else if pb \<le> pc then b
         else c)"

section \<open>The chunk reader\<close>

definition PNG_SIGNATURE :: bytes where
  "PNG_SIGNATURE = [0x89, 0x50, 0x4E, 0x47, 0x0D, 0x0A, 0x1A, 0x0A]"

text \<open>The four chunk tags the reader compares with, as bytes.\<close>

definition IHDR :: bytes where "IHDR = [0x49, 0x48, 0x44, 0x52]"
definition tRNS :: bytes where "tRNS = [0x74, 0x52, 0x4E, 0x53]"
definition IDAT :: bytes where "IDAT = [0x49, 0x44, 0x41, 0x54]"
definition IEND :: bytes where "IEND = [0x49, 0x45, 0x4E, 0x44]"

text \<open>A big-endian unsigned integer, as \<^verbatim>\<open>struct.unpack(">I", ...)\<close> reads four bytes.\<close>

definition be_uint :: "bytes \<Rightarrow> nat" where
  "be_uint bs = foldl (\<lambda>acc b. acc * 256 + b) 0 bs"

text \<open>
  \<^verbatim>\<open>struct.unpack(">IIBBBBB", chunk_data)\<close>: the buffer must have exactly
  4+4+1+1+1+1+1 = 13 bytes, or \<^verbatim>\<open>struct.error\<close> is raised.  The source keeps the first
  four fields and drops the last three.
\<close>

definition unpack_IHDR :: "bytes \<Rightarrow> exn + (nat \<times> nat \<times> nat \<times> nat)" where
  "unpack_IHDR chunk_data =
     (if length chunk_data \<noteq> 13 then Inl (StructError ''unpack requires a buffer of 13 bytes'')
      else Inr (be_uint (slice chunk_data 0 4), be_uint (slice chunk_data 4 8),
                chunk_data ! 8, chunk_data ! 9))"

text \<open>The local variables of \<^verbatim>\<open>png_has_transparency\<close> that the chunk loop assigns.\<close>

record parse_state =
  width :: "nat option"
  height :: "nat option"
  bit_depth :: "nat option"
  color_type :: "nat option"
  trns_chunk :: "bytes option"
  idat :: bytes

definition init_state :: parse_state where
  "init_state = \<lparr>width = None, height = None, bit_depth = None, color_type = None,
                  trns_chunk = None, idat = []\<rparr>"

text \<open>
  The \<^verbatim>\<open>while i < len(data)\<close> loop (source lines 42--64).  The checksum bytes are
  skipped, never read.  \<^verbatim>\<open>IEND\<close> leaves the loop.
\<close>

function chunk_loop :: "string \<Rightarrow> bytes \<Rightarrow> nat \<Rightarrow> parse_state \<Rightarrow> exn + parse_state" where
  "chunk_loop path data i st =
     (if i < length data then
        if i + 8 > length data then
          Inl (ValueError (path @ '' is truncated (invalid chunk header)''))
        else
          let len = be_uint (slice data i (i + 4));
              chunk_type = slice data (i + 4) (i + 8);
              chunk_start = i + 8;
              chunk_end = chunk_start + len;
              crc_end = chunk_end + 4
          in if crc_end > length data then
               Inl (ValueError (path @ '' is truncated (invalid chunk length)''))
             else
               let chunk_data = slice data chunk_start chunk_end
               in if chunk_type = IHDR then
                    (case unpack_IHDR chunk_data of
                       Inl e \<Rightarrow> Inl e
                     | Inr (w, h, bd, ct) \<Rightarrow>
                         chunk_loop path data crc_end
                           (st\<lparr>width := Some w, height := Some h,
                               bit_depth := Some bd, color_type := Some ct\<rparr>))
                  else if chunk_type = tRNS then
                    chunk_loop path data crc_end (st\<lparr>trns_chunk := Some chunk_data\<rparr>)
                  else if chunk_type = IDAT then
                    chunk_loop path data crc_end (st\<lparr>idat := idat st @ chunk_data\<rparr>)
                  else if chunk_type = IEND then Inr st
                  else chunk_loop path data crc_end st
      else Inr st)"
  by pat_completeness auto
termination
  by (relation "measure (\<lambda>(path, data, i, st). length data - i)") auto

declare chunk_loop.simps [simp del]

section \<open>The scanline reconstructor\<close>

text \<open>
  One iteration of each of the four inner loops (source lines 101--116), on the row being
  rebuilt in place.  \<open>row\<close> already holds the reconstructed bytes to the left of \<open>x\<close>.
\<close>

definition sub_step :: "nat \<Rightarrow> nat \<Rightarrow> bytes \<Rightarrow> exn + bytes" where
  "sub_step bpp x row =
     ebind (if x \<ge> bpp then getitem row (x - bpp) else Inr 0) (\<lambda>left.
     ebind (getitem row x) (\<lambda>v.
     setitem row x ((v + left) AND 0xFF)))"

definition up_step :: "bytes \<Rightarrow> nat \<Rightarrow> bytes \<Rightarrow> exn + bytes" where
  "up_step prev x row =
     ebind (getitem row x) (\<lambda>v.
     ebind (getitem prev x) (\<lambda>up.
     setitem row x ((v + up) AND 0xFF)))"

definition average_step :: "nat \<Rightarrow> bytes \<Rightarrow> nat \<Rightarrow> bytes \<Rightarrow> exn + bytes" where
  "average_step bpp prev x row =
     ebind (if x \<ge> bpp then getitem row (x - bpp) else Inr 0) (\<lambda>left.
     ebind (getitem row x) (\<lambda>v.
     ebind (getitem prev x) (\<lambda>up.
     setitem row x ((v + ((left + up) div 2)) AND 0xFF))))"

definition paeth_step :: "nat \<Rightarrow> bytes \<Rightarrow> nat \<Rightarrow> bytes \<Rightarrow> exn + bytes" where
  "paeth_step bpp prev x row =
     ebind (if x \<ge> bpp then getitem row (x - bpp) else Inr 0) (\<lambda>left.
     ebind (getitem prev x) (\<lambda>up.
     ebind (if x \<ge> bpp then getitem prev (x - bpp) else Inr 0) (\<lambda>up_left.
     ebind (getitem row x) (\<lambda>v.
     setitem row x (nat ((int v + paeth (int left) (int up) (int up_left)) AND 0xFF))))))"

text \<open>The dispatch on the filter type (source lines 98--118).\<close>

definition unfilter :: "string \<Rightarrow> nat \<Rightarrow> nat \<Rightarrow> nat \<Rightarrow> bytes \<Rightarrow> bytes \<Rightarrow> exn + bytes" where
  "unfilter path filter_type row_len bpp prev row =
     (if filter_type = 0 then Inr row
      else if filter_type = 1 then for_loop [0..<row_len] (sub_step bpp) row
      else if filter_type = 2 then for_loop [0..<row_len] (up_step prev) row
      else if filter_type = 3 then for_loop [0..<row_len] (average_step bpp prev) row
      else if filter_type = 4 then for_loop [0..<row_len] (paeth_step bpp prev) row
      else Inl (ValueError (path @ '' has unknown PNG filter type: '' @ str_nat filter_type)))"

text \<open>
  The body of \<^verbatim>\<open>for y in range(height)\<close> (source lines 90--120) on the pair
  \<open>(raw_index, out)\<close>.  The slice assignment replaces the bytes of row \<open>y\<close> of \<open>out\<close>.
\<close>

definition row_body ::
  "string \<Rightarrow> bytes \<Rightarrow> nat \<Rightarrow> nat \<Rightarrow> nat \<Rightarrow> nat \<times> bytes \<Rightarrow> exn + (nat \<times> bytes)" where
  "row_body path raw row_len bpp y s =
     (case s of (raw_index, out) \<Rightarrow>
        ebind (getitem raw raw_index) (\<lambda>filter_type.
          let raw_index1 = raw_index + 1;
              row = slice raw raw_index1 (raw_index1 + row_len);
              raw_index2 = raw_index1 + row_len;
              prev = (if y > 0 then slice out ((y - 1) * row_len) (y * row_len)
                      else replicate row_len 0)
          in ebind (unfilter path filter_type row_len bpp prev row) (\<lambda>row'.
               Inr (raw_index2,
                    take (y * row_len) out @ row' @ drop ((y + 1) * row_len) out))))"

text \<open>
  Source lines 87--120, with \<open>h\<close> for \<^verbatim>\<open>height\<close>: the raster starts as zeros and is
  filled row by row.
\<close>

definition unfilter_rows :: "string \<Rightarrow> bytes \<Rightarrow> nat \<Rightarrow> nat \<Rightarrow> nat \<Rightarrow> exn + bytes" where
  "unfilter_rows path raw h row_len bpp =
     ebind (for_loop [0..<h] (row_body path raw row_len bpp)
              (0, replicate (h * row_len) 0))
       (\<lambda>s. Inr (snd s))"

section \<open>The transparency decision\<close>

text \<open>\<^verbatim>\<open>out[3::4]\<close>: the elements at the indices 3, 7, 11, ...\<close>

definition alpha_bytes :: "bytes \<Rightarrow> bytes" where
  "alpha_bytes out = map (\<lambda>k. out ! k) (filter (\<lambda>k. k mod 4 = 3) [0..<length out])"

text \<open>
  Source lines 81--129, reached with \<open>bpp\<close> set: decompress, check the size, rebuild
  the raster, decide.  The decompressor \<^verbatim>\<open>zlib.decompress\<close> is the parameter
  \<open>inflate\<close> (\<open>Inl\<close>: the message of the \<^verbatim>\<open>zlib.error\<close> it raises).
\<close>

definition decode_raster ::
  "(bytes \<Rightarrow> string + bytes) \<Rightarrow> string \<Rightarrow> parse_state \<Rightarrow> nat \<Rightarrow> nat \<Rightarrow> nat \<Rightarrow> nat \<Rightarrow> exn + bool" where
  "decode_raster inflate path st w h ct bpp =
     (case inflate (idat st) of
        Inl m \<Rightarrow> Inl (ZlibError m)
      | Inr raw \<Rightarrow>
          let row_len = w * bpp;
              expected_len = h * (1 + row_len)
          in if length raw \<noteq> expected_len then
               Inl (ValueError (path @ '' has unexpected decompressed size''))
             else
               ebind (unfilter_rows path raw h row_len bpp) (\<lambda>out.
                 if ct = 6 then
                   Inr (list_ex (\<lambda>a. a < 255) (alpha_bytes out))
                 else
                   (case trns_chunk st of
                      None \<Rightarrow> Inr False
                    | Some t \<Rightarrow> Inr (list_ex (\<lambda>a. a < 255) t))))"

text \<open>
  \<^verbatim>\<open>png_has_transparency\<close>, with the file's content \<open>data\<close> in place of
  \<^verbatim>\<open>path.read_bytes()\<close>.
\<close>

definition png_has_transparency :: "(bytes \<Rightarrow> string + bytes) \<Rightarrow> string \<Rightarrow> bytes \<Rightarrow> exn + bool" where
  "png_has_transparency inflate path data =
     (if take (length PNG_SIGNATURE) data \<noteq> PNG_SIGNATURE then
        Inl (ValueError (path @ '' is not a PNG file''))
      else
        ebind (chunk_loop path data (length PNG_SIGNATURE) init_state) (\<lambda>st.
          if width st = None \<or> height st = None \<or> bit_depth st = None \<or> color_type st = None
          then Inl (ValueError (path @ '' is missing IHDR''))
          else
            let w = the (width st); h = the (height st);
                bd = the (bit_depth st); ct = the (color_type st)
            in if bd \<noteq> 8 then
                 Inl (ValueError (path @ '' has unsupported bit depth: '' @ str_nat bd))
               else if ct = 6 then decode_raster inflate path st w h ct 4
               else if ct = 3 then decode_raster inflate path st w h ct 1
               else if ct = 0 \<or> ct = 2 \<or> ct = 4 then Inr False
               else Inl (ValueError (path @ '' has unsupported color type: '' @ str_nat ct))))"

section \<open>The driver\<close>

text \<open>
  \<^verbatim>\<open>main\<close> (source lines 132--153).  The file system is a map from a path to the file's
  content (\<open>None\<close>: the path does not exist).  The result is the lines printed and the
  exit status.
\<close>

definition check_icon :: "(bytes \<Rightarrow> string + bytes) \<Rightarrow> (string \<rightharpoonup> bytes) \<Rightarrow> string \<Rightarrow> string list" where
  "check_icon inflate fs icon_path =
     (case fs icon_path of
        None \<Rightarrow> [''Missing icon file: '' @ icon_path]
      | Some data \<Rightarrow>
          (case png_has_transparency inflate icon_path data of
             Inr b \<Rightarrow> (if \<not> b then [''No transparent pixels found in '' @ icon_path] else [])
           | Inl exc \<Rightarrow> [''Failed to validate '' @ icon_path @ '': '' @ exn_str exc]))"

fun collect_failures ::
  "(bytes \<Rightarrow> string + bytes) \<Rightarrow> (string \<rightharpoonup> bytes) \<Rightarrow> string list \<Rightarrow> string list \<Rightarrow> string list" where
  "collect_failures inflate fs [] failures = failures"
| "collect_failures inflate fs (icon_path # rest) failures =
     collect_failures inflate fs rest (failures @ check_icon inflate fs icon_path)"

definition REQUIRED_ICON_FILES :: "string list" where
  "REQUIRED_ICON_FILES =
     [''src-tauri/icons/32x32.png'', ''src-tauri/icons/128x128.png'',
      ''src-tauri/icons/128x128@2x.png'', ''src-tauri/icons/logo.png'']"

definition main_on :: "(bytes \<Rightarrow> string + bytes) \<Rightarrow> (string \<rightharpoonup> bytes) \<Rightarrow> string list \<Rightarrow> string list \<times> int" where
  "main_on inflate fs icon_files =
     (let failures = collect_failures inflate fs icon_files []
      in if failures \<noteq> [] then
           (''Icon transparency check failed:'' # map (\<lambda>item. ''- '' @ item) failures, 1)
         else ([''Icon transparency check passed for required PNGs.''], 0))"

definition main :: "(bytes \<Rightarrow> string + bytes) \<Rightarrow> (string \<rightharpoonup> bytes) \<Rightarrow> string list \<times> int" where
  "main inflate fs = main_on inflate fs REQUIRED_ICON_FILES"

section \<open>The inverse filter as the specification words it\<close>

text \<open>
  The predictor and the five inverse filters written from the specification's text
  (section 4.4), to compare the source's loops with.  \<open>left\<close>, \<open>up\<close> and \<open>up_left\<close>
  are the neighbour bytes, 0 where the neighbour does not exist.
\<close>

definition spec_paeth :: "int \<Rightarrow> int \<Rightarrow> int \<Rightarrow> int" where
  "spec_paeth a b c =
     (let p = a + b - c; pa = \<bar>p - a\<bar>; pb = \<bar>p - b\<bar>; pc = \<bar>p - c\<bar>
      in if pa \<le> pb \<and> pa \<le> pc then a else if pb \<le> pc then b else c)"

definition spec_inverse_filter :: "nat \<Rightarrow> nat \<Rightarrow> nat \<Rightarrow> nat \<Rightarrow> nat \<Rightarrow> nat" where
  "spec_inverse_filter filter_type filtered left up up_left =
     (if filter_type = 0 then filtered
      else if filter_type = 1 then (filtered + left) mod 256
      else if filter_type = 2 then (filtered + up) mod 256
      else if filter_type = 3 then (filtered + (left + up) div 2) mod 256
      else nat ((int filtered + spec_paeth (int left) (int up) (int up_left)) mod 256))"

text \<open>
  The byte the specification asks for at column \<open>x\<close> of row \<open>y\<close> of the raster \<open>out\<close>:
  the inverse filter of the row's filter type, on the filtered byte of the decompressed
  stream \<open>raw\<close> and the reconstructed neighbours.  \<open>prev\<close> is the row above, all zero
  for the first row; \<open>left\<close> and \<open>up_left\<close> are 0 for \<open>x < bpp\<close>.
\<close>

definition spec_raster_byte :: "bytes \<Rightarrow> nat \<Rightarrow> nat \<Rightarrow> bytes \<Rightarrow> nat \<Rightarrow> nat \<Rightarrow> nat" where
  "spec_raster_byte raw row_len bpp out y x =
     (let filter_type = raw ! (y * (1 + row_len));
          filtered = raw ! (y * (1 + row_len) + 1 + x);
          prev = (\<lambda>k. if y = 0 then 0 else out ! ((y - 1) * row_len + k));
          left = (if x < bpp then 0 else out ! (y * row_len + (x - bpp)));
          up_left = (if x < bpp then 0 else prev (x - bpp))
      in spec_inverse_filter filter_type filtered left (prev x) up_left)"

text \<open>
  The header fields are assigned together, by the one \<^verbatim>\<open>struct.unpack\<close> of an IHDR
  chunk: either all four are set or none is.
\<close>

definition header_all_or_none :: "parse_state \<Rightarrow> bool" where
  "header_all_or_none st \<longleftrightarrow>
     (width st = None) = (color_type st = None) \<and>
     (height st = None) = (color_type st = None) \<and>
     (bit_depth st = None) = (color_type st = None)"

text \<open>
  The types of the chunks the loop of \<^verbatim>\<open>png_has_transparency\<close> reads from offset \<open>i\<close>,
  in file order: the walk of \<open>chunk_loop\<close>, keeping the chunk types only.  A header
  chunk is absent when \<open>IHDR\<close> is not among them.
\<close>

function chunk_types :: "bytes \<Rightarrow> nat \<Rightarrow> bytes list" where
  "chunk_types data i =
     (if i < length data \<and> \<not> (i + 8 > length data) then
        let len = be_uint (slice data i (i + 4));
            chunk_type = slice data (i + 4) (i + 8);
            crc_end = i + 8 + len + 4
        in if crc_end > length data then []
           else if chunk_type = IEND then [chunk_type]
           else chunk_type # chunk_types data crc_end
      else [])"
  by pat_completeness auto
termination
  by (relation "measure (\<lambda>(data, i). length data - i)") auto

declare chunk_types.simps [simp del]

text \<open>Two states with the same header fields.\<close>

definition same_header :: "parse_state \<Rightarrow> parse_state \<Rightarrow> bool" where
  "same_header st st' \<longleftrightarrow>
     width st' = width st \<and> height st' = height st \<and>
     bit_depth st' = bit_depth st \<and> color_type st' = color_type st"

text \<open>
  The offsets of the chunks of the container, walked in file order from offset \<open>i\<close> by
  the declared lengths as the loop of \<^verbatim>\<open>png_has_transparency\<close> walks them: the walk
  ends with the IEND chunk, with a chunk that does not fit into the buffer, or at the end
  of the buffer.
\<close>

function chunk_offsets :: "bytes \<Rightarrow> nat \<Rightarrow> nat list" where
  "chunk_offsets data i =
     (if i < length data then
        if i + 8 > length data then [i]
        else
          let len = be_uint (slice data i (i + 4));
              chunk_type = slice data (i + 4) (i + 8);
              crc_end = i + 8 + len + 4
          in if crc_end > length data then [i]
             else if chunk_type = IEND then [i]
             else i # chunk_offsets data crc_end
      else [])"
  by pat_completeness auto
termination
  by (relation "measure (\<lambda>(data, i). length data - i)") auto

declare chunk_offsets.simps [simp del]

text \<open>
  The chunk at offset \<open>k\<close> does not fit: its eight header bytes, or its declared payload
  and the four checksum bytes after it, extend past the end of the buffer.
\<close>

definition truncated_at :: "bytes \<Rightarrow> nat \<Rightarrow> bool" where
  "truncated_at data k \<longleftrightarrow>
     length data < k + 8 \<or> length data < k + 8 + be_uint (slice data k (k + 4)) + 4"

section \<open>Concrete inputs\<close>

text \<open>
  A decompressed stream of five rows of two bytes, one row for each filter type, read
  with one byte per pixel.
\<close>

definition example_raw :: bytes where
  "example_raw = [0, 10, 20,  1, 250, 10,  2, 7, 250,  3, 9, 9,  4, 100, 200]"

text \<open>
  One row of seven bytes with the Paeth filter, read with four bytes per pixel: it is the
  first row, and its first four bytes have no pixel to their left.
\<close>

definition example_first_row :: bytes where
  "example_first_row = [4, 7, 9, 250,  3, 5, 5, 5]"

text \<open>
  A chunk with a payload of fewer than 256 bytes and a zero checksum (the reader skips the
  checksum), and a file of one pixel: the signature, an IHDR chunk of width 1, height 1,
  bit depth \<open>bd\<close> and color type \<open>ct\<close>, the chunks \<open>extra\<close>, one IDAT chunk and IEND.
  What the IDAT payload decompresses to is the decompressor's answer.
\<close>

definition example_chunk :: "bytes \<Rightarrow> bytes \<Rightarrow> bytes" where
  "example_chunk tag payload = [0, 0, 0, length payload] @ tag @ payload @ [0, 0, 0, 0]"

definition example_png :: "nat \<Rightarrow> nat \<Rightarrow> bytes \<Rightarrow> bytes" where
  "example_png bd ct extra =
     PNG_SIGNATURE @ example_chunk IHDR [0, 0, 0, 1, 0, 0, 0, 1, bd, ct, 0, 0, 0] @ extra @
     example_chunk IDAT [120, 156] @ example_chunk IEND []"

text \<open>The state the chunk loop leaves on such a file.\<close>

definition example_state :: "nat \<Rightarrow> nat \<Rightarrow> bytes option \<Rightarrow> parse_state" where
  "example_state bd ct t =
     \<lparr>width = Some 1, height = Some 1, bit_depth = Some bd, color_type = Some ct,
      trns_chunk = t, idat = [120, 156]\<rparr>"

text \<open>
  A file system with two of the four required icons: one of color type 6 and one of color
  type 2.
\<close>

definition example_files :: "string \<rightharpoonup> bytes" where
  "example_files =
     [''src-tauri/icons/32x32.png'' \<mapsto> example_png 8 6 [],
      ''src-tauri/icons/logo.png'' \<mapsto> example_png 8 2 []]"

text \<open>
  A file cut off inside its second chunk: the chunk of type \<open>tag\<close> declares five bytes
  of payload and two bytes follow.
\<close>

definition truncated_png :: "bytes \<Rightarrow> bytes" where
  "truncated_png tag =
     PNG_SIGNATURE @ example_chunk IHDR [0, 0, 0, 1, 0, 0, 0, 1, 8, 6, 0, 0, 0] @
     [0, 0, 0, 5] @ tag @ [120, 156]"

text \<open>
  A file with the given IHDR payload, whatever its length, and the same file cut off
  inside the chunk after the header.
\<close>

definition header_png :: "bytes \<Rightarrow> bytes" where
  "header_png payload =
     PNG_SIGNATURE @ example_chunk IHDR payload @
     example_chunk IDAT [120, 156] @ example_chunk IEND []"

definition truncated_after_header_png :: "bytes \<Rightarrow> bytes" where
  "truncated_after_header_png payload =
     PNG_SIGNATURE @ example_chunk IHDR payload @ [0, 0, 0, 5] @ IDAT @ [120, 156]"

text \<open>A file with no IHDR chunk.\<close>

definition headerless_png :: bytes where
  "headerless_png = PNG_SIGNATURE @ example_chunk IDAT [120, 156] @ example_chunk IEND []"

section \<open>Auxiliary facts about the loops\<close>

lemma nat_and_255: "(n::nat) AND 255 = n mod 256"
proof -
  have "take_bit 8 n = n AND mask 8" by (rule take_bit_eq_mask)
  moreover have "(mask 8 :: nat) = 255" by (simp add: mask_eq_exp_minus_1)
  ultimately show ?thesis by (simp add: take_bit_eq_mod)
qed

lemma int_and_255: "(k::int) AND 255 = k mod 256"
proof -
  have "take_bit 8 k = k AND mask 8" by (rule take_bit_eq_mask)
  moreover have "(mask 8 :: int) = 255" by (simp add: mask_eq_exp_minus_1)
  ultimately show ?thesis by (simp add: take_bit_eq_mod)
qed

lemma for_loop_append:
  "for_loop (xs @ ys) body s =
     (case for_loop xs body s of Inl e \<Rightarrow> Inl e | Inr s' \<Rightarrow> for_loop ys body s')"
  by (induction xs arbitrary: s) (auto split: sum.splits)

lemma for_loop_Suc:
  "for_loop [0..<Suc m] body s =
     (case for_loop [0..<m] body s of Inl e \<Rightarrow> Inl e | Inr s' \<Rightarrow> body m s')"
  by (simp add: for_loop_append split: sum.splits)

lemma for_loop_left_to_right:
  assumes step: "\<And>x r. x < n \<Longrightarrow> length r = n \<Longrightarrow>
      step x r = Inr (r[x := F x (r ! x) (if bpp \<le> x then r ! (x - bpp) else 0)])"
    and bpp: "0 < bpp" and len: "length row = n" and m: "m \<le> n"
  shows "\<exists>r. for_loop [0..<m] step row = Inr r \<and> length r = n \<and>
           (\<forall>x<m. r ! x = F x (row ! x) (if bpp \<le> x then r ! (x - bpp) else 0)) \<and>
           (\<forall>x. m \<le> x \<longrightarrow> x < n \<longrightarrow> r ! x = row ! x)"
  using m
proof (induction m)
  case 0
  then show ?case using len by simp
next
  case (Suc m)
  then obtain r where r: "for_loop [0..<m] step row = Inr r" "length r = n"
    and filled: "\<forall>x<m. r ! x = F x (row ! x) (if bpp \<le> x then r ! (x - bpp) else 0)"
    and rest: "\<forall>x. m \<le> x \<longrightarrow> x < n \<longrightarrow> r ! x = row ! x"
    by auto
  from Suc.prems have mn: "m < n" by simp
  let ?v = "F m (r ! m) (if bpp \<le> m then r ! (m - bpp) else 0)"
  let ?r = "r[m := ?v]"
  have run: "for_loop [0..<Suc m] step row = Inr ?r"
    unfolding for_loop_Suc using r step [OF mn r(2)] by simp
  have rm: "r ! m = row ! m" using rest mn by simp
  have "?r ! x = F x (row ! x) (if bpp \<le> x then ?r ! (x - bpp) else 0)" if "x < Suc m" for x
  proof (cases "x = m")
    case True
    have "bpp \<le> m \<Longrightarrow> ?r ! (m - bpp) = r ! (m - bpp)" using bpp by simp
    then show ?thesis using True mn r(2) rm by auto
  next
    case False
    with that have xm: "x < m" by simp
    have "bpp \<le> x \<Longrightarrow> ?r ! (x - bpp) = r ! (x - bpp)" using xm by simp
    moreover have "?r ! x = r ! x" using xm by simp
    ultimately show ?thesis using filled xm by auto
  qed
  moreover have "\<forall>x. Suc m \<le> x \<longrightarrow> x < n \<longrightarrow> ?r ! x = row ! x"
    using rest by simp
  ultimately show ?case using run r(2) by auto
qed


lemma paeth_spec: "paeth a b c = spec_paeth a b c"
  by (simp add: paeth_def spec_paeth_def)

lemma sub_step_eq:
  "x < length r \<Longrightarrow>
   sub_step bpp x r = Inr (r[x := (r ! x + (if bpp \<le> x then r ! (x - bpp) else 0)) mod 256])"
  by (auto simp: sub_step_def getitem_def setitem_def ebind_def nat_and_255)

lemma up_step_eq:
  "x < length r \<Longrightarrow> length prev = length r \<Longrightarrow>
   up_step prev x r = Inr (r[x := (r ! x + prev ! x) mod 256])"
  by (auto simp: up_step_def getitem_def setitem_def ebind_def nat_and_255)

lemma average_step_eq:
  "x < length r \<Longrightarrow> length prev = length r \<Longrightarrow>
   average_step bpp prev x r =
     Inr (r[x := (r ! x + ((if bpp \<le> x then r ! (x - bpp) else 0) + prev ! x) div 2) mod 256])"
  by (auto simp: average_step_def getitem_def setitem_def ebind_def nat_and_255)

lemma paeth_step_eq:
  "x < length r \<Longrightarrow> length prev = length r \<Longrightarrow>
   paeth_step bpp prev x r =
     Inr (r[x := nat ((int (r ! x) +
                  spec_paeth (int (if bpp \<le> x then r ! (x - bpp) else 0)) (int (prev ! x))
                    (int (if bpp \<le> x then prev ! (x - bpp) else 0))) mod 256)])"
  by (auto simp: paeth_step_def getitem_def setitem_def ebind_def int_and_255 paeth_spec)

lemma unfilter_row_spec:
  assumes ft: "ft \<le> 4" and bpp: "0 < bpp" and row: "length row = n" and prev: "length prev = n"
  shows "\<exists>r. unfilter path ft n bpp prev row = Inr r \<and> length r = n \<and>
           (\<forall>x<n. r ! x = spec_inverse_filter ft (row ! x)
                              (if bpp \<le> x then r ! (x - bpp) else 0) (prev ! x)
                              (if bpp \<le> x then prev ! (x - bpp) else 0))"
proof -
  consider "ft = 0" | "ft = 1" | "ft = 2" | "ft = 3" | "ft = 4" using ft by linarith
  then show ?thesis
  proof cases
    case 1
    then show ?thesis using row by (simp add: unfilter_def spec_inverse_filter_def)
  next
    case 2
    have "\<exists>r. for_loop [0..<n] (sub_step bpp) row = Inr r \<and> length r = n \<and>
           (\<forall>x<n. r ! x = (\<lambda>x v left. (v + left) mod 256) x (row ! x)
                              (if bpp \<le> x then r ! (x - bpp) else 0)) \<and>
           (\<forall>x. n \<le> x \<longrightarrow> x < n \<longrightarrow> r ! x = row ! x)"
      by (rule for_loop_left_to_right [OF _ bpp row]) (simp_all add: sub_step_eq)
    then show ?thesis using 2 by (auto simp: unfilter_def spec_inverse_filter_def)
  next
    case 3
    have "\<exists>r. for_loop [0..<n] (up_step prev) row = Inr r \<and> length r = n \<and>
           (\<forall>x<n. r ! x = (\<lambda>x v left. (v + prev ! x) mod 256) x (row ! x)
                              (if bpp \<le> x then r ! (x - bpp) else 0)) \<and>
           (\<forall>x. n \<le> x \<longrightarrow> x < n \<longrightarrow> r ! x = row ! x)"
      by (rule for_loop_left_to_right [OF _ bpp row]) (simp_all add: up_step_eq prev)
    then show ?thesis using 3 by (auto simp: unfilter_def spec_inverse_filter_def)
  next
    case 4
    have "\<exists>r. for_loop [0..<n] (average_step bpp prev) row = Inr r \<and> length r = n \<and>
           (\<forall>x<n. r ! x = (\<lambda>x v left. (v + (left + prev ! x) div 2) mod 256) x (row ! x)
                              (if bpp \<le> x then r ! (x - bpp) else 0)) \<and>
           (\<forall>x. n \<le> x \<longrightarrow> x < n \<longrightarrow> r ! x = row ! x)"
      by (rule for_loop_left_to_right [OF _ bpp row]) (simp_all add: average_step_eq prev)
    then show ?thesis using 4 by (auto simp: unfilter_def spec_inverse_filter_def)
  next
    case 5
    have "\<exists>r. for_loop [0..<n] (paeth_step bpp prev) row = Inr r \<and> length r = n \<and>
           (\<forall>x<n. r ! x = (\<lambda>x v left. nat ((int v + spec_paeth (int left) (int (prev ! x))
                    (int (if bpp \<le> x then prev ! (x - bpp) else 0))) mod 256)) x (row ! x)
                              (if bpp \<le> x then r ! (x - bpp) else 0)) \<and>
           (\<forall>x. n \<le> x \<longrightarrow> x < n \<longrightarrow> r ! x = row ! x)"
      by (rule for_loop_left_to_right [OF _ bpp row]) (simp_all add: paeth_step_eq prev)
    then show ?thesis using 5 by (auto simp: unfilter_def spec_inverse_filter_def)
  qed
qed


lemma idx_lt: "y < m \<Longrightarrow> x < rl \<Longrightarrow> y * rl + x < m * (rl::nat)"
proof -
  assume "y < m" "x < rl"
  then have "y * rl + x < Suc y * rl" by simp
  also have "\<dots> \<le> m * rl" using \<open>y < m\<close> by (intro mult_le_mono1) simp
  finally show ?thesis .
qed

lemma splice_row:
  assumes "length out = h * rl" and "m < h" and "length r = rl"
  defines "out' \<equiv> take (m * rl) out @ r @ drop ((m + 1) * rl) out"
  shows "length out' = h * rl"
    and "\<And>i. i < m * rl \<Longrightarrow> out' ! i = out ! i"
    and "\<And>x. x < rl \<Longrightarrow> out' ! (m * rl + x) = r ! x"
proof -
  have le: "(m + 1) * rl \<le> h * rl" using assms(2) by (intro mult_le_mono1) simp
  have le': "m * rl \<le> h * rl" using assms(2) by (intro mult_le_mono1) simp
  have t: "length (take (m * rl) out) = m * rl" using assms(1) le' by simp
  show "length out' = h * rl"
  proof -
    have "length out' = m * rl + rl + (h * rl - (m + 1) * rl)"
      using assms(1,3) t unfolding out'_def by simp
    also have "\<dots> = h * rl" using le by (simp add: algebra_simps)
    finally show ?thesis .
  qed
  show "\<And>i. i < m * rl \<Longrightarrow> out' ! i = out ! i"
    using t unfolding out'_def by (simp add: nth_append)
  show "\<And>x. x < rl \<Longrightarrow> out' ! (m * rl + x) = r ! x"
    using t assms(3) unfolding out'_def by (simp add: nth_append)
qed

lemma slice_length: "b \<le> length xs \<Longrightarrow> a \<le> b \<Longrightarrow> length (slice xs a b) = b - a"
  by (simp add: slice_def)

lemma slice_nth: "b \<le> length xs \<Longrightarrow> a + k < b \<Longrightarrow> slice xs a b ! k = xs ! (a + k)"
  by (simp add: slice_def)

text \<open>One iteration of the row loop, on a state the earlier iterations left.\<close>

lemma row_body_spec:
  assumes len: "length raw = h * (1 + rl)" and bpp: "0 < bpp" and m: "m < h"
    and ft: "raw ! (m * (1 + rl)) \<le> 4" and out: "length out = h * rl"
  shows "\<exists>r. row_body path raw rl bpp m (m * (1 + rl), out) =
              Inr (Suc m * (1 + rl), take (m * rl) out @ r @ drop ((m + 1) * rl) out) \<and>
            length r = rl \<and>
            (\<forall>x<rl. r ! x = spec_inverse_filter (raw ! (m * (1 + rl)))
                      (raw ! (m * (1 + rl) + 1 + x))
                      (if bpp \<le> x then r ! (x - bpp) else 0)
                      (if m = 0 then 0 else out ! ((m - 1) * rl + x))
                      (if bpp \<le> x then (if m = 0 then 0 else out ! ((m - 1) * rl + (x - bpp))) else 0))"
proof -
  let ?i = "m * (1 + rl)"
  let ?row = "slice raw (?i + 1) (?i + 1 + rl)"
  let ?prev = "if m > 0 then slice out ((m - 1) * rl) (m * rl) else replicate rl 0"
  have end_le: "?i + 1 + rl \<le> length raw"
  proof -
    have "Suc m * (1 + rl) \<le> h * (1 + rl)" using m by (intro mult_le_mono1) simp
    then show ?thesis using len by simp
  qed
  then have i_lt: "?i < length raw" by simp
  have row_len: "length ?row = rl" using end_le by (simp add: slice_length)
  have row_nth: "?row ! x = raw ! (?i + 1 + x)" if "x < rl" for x
    using end_le that by (simp add: slice_nth)
  have mrl: "m * rl \<le> length out" using m out by simp
  have prev_len: "length ?prev = rl"
  proof (cases "m > 0")
    case True
    then have "m * rl - (m - 1) * rl = rl" by (cases m) simp_all
    moreover have "(m - 1) * rl \<le> m * rl" by simp
    ultimately show ?thesis using True mrl by (simp add: slice_length)
  qed simp
  have prev_nth: "?prev ! x = (if m = 0 then 0 else out ! ((m - 1) * rl + x))" if "x < rl" for x
  proof (cases "m > 0")
    case True
    then have "(m - 1) * rl + x < m * rl" using that by (intro idx_lt) simp_all
    then show ?thesis using True mrl by (simp add: slice_nth)
  qed (use that in simp)
  obtain r where r: "unfilter path (raw ! ?i) rl bpp ?prev ?row = Inr r" "length r = rl"
    and rx: "\<forall>x<rl. r ! x = spec_inverse_filter (raw ! ?i) (?row ! x)
                (if bpp \<le> x then r ! (x - bpp) else 0) (?prev ! x)
                (if bpp \<le> x then ?prev ! (x - bpp) else 0)"
    using unfilter_row_spec [OF ft bpp row_len prev_len, of path] by blast
  have run: "row_body path raw rl bpp m (?i, out) =
      Inr (Suc m * (1 + rl), take (m * rl) out @ r @ drop ((m + 1) * rl) out)"
    using i_lt r(1) by (simp add: row_body_def getitem_def ebind_def Let_def)
  have "r ! x = spec_inverse_filter (raw ! ?i) (raw ! (?i + 1 + x))
                  (if bpp \<le> x then r ! (x - bpp) else 0)
                  (if m = 0 then 0 else out ! ((m - 1) * rl + x))
                  (if bpp \<le> x then (if m = 0 then 0 else out ! ((m - 1) * rl + (x - bpp))) else 0)"
    if x: "x < rl" for x
  proof -
    have "x - bpp < rl" using x by simp
    then show ?thesis using rx x row_nth [OF x] prev_nth [OF x] prev_nth [of "x - bpp"]
      by simp
  qed
  then show ?thesis using run r(2) by blast
qed

lemma spec_raster_byte_cong:
  assumes eq: "\<And>i. i < Suc y * rl \<Longrightarrow> a ! i = b ! i" and x: "x < rl"
  shows "spec_raster_byte raw rl bpp a y x = spec_raster_byte raw rl bpp b y x"
proof -
  have cur: "a ! (y * rl + k) = b ! (y * rl + k)" if "k < rl" for k
    using that by (intro eq) simp
  have above: "a ! ((y - 1) * rl + k) = b ! ((y - 1) * rl + k)" if "k < rl" "y \<noteq> 0" for k
  proof -
    have "(y - 1) * rl + k < y * rl" using that by (intro idx_lt) simp_all
    then show ?thesis by (intro eq) simp
  qed
  have xb: "x - bpp < rl" using x by simp
  have up: "(if y = 0 then 0 else a ! ((y - 1) * rl + k)) =
            (if y = 0 then 0 else b ! ((y - 1) * rl + k))" if "k < rl" for k
    by (rule if_cong [OF refl refl]) (rule above [OF that])
  have left: "(if x < bpp then 0 else a ! (y * rl + (x - bpp))) =
              (if x < bpp then 0 else b ! (y * rl + (x - bpp)))"
    by (rule if_cong [OF refl refl]) (rule cur [OF xb])
  have up_left: "(if x < bpp then 0 else if y = 0 then 0 else a ! ((y - 1) * rl + (x - bpp))) =
                 (if x < bpp then 0 else if y = 0 then 0 else b ! ((y - 1) * rl + (x - bpp)))"
    by (rule if_cong [OF refl refl]) (rule up [OF xb])
  show ?thesis
    unfolding spec_raster_byte_def Let_def
    by (simp only: left up [OF x] up_left)
qed

lemma rows_prefix:
  assumes len: "length raw = h * (1 + rl)" and bpp: "0 < bpp" and m: "m \<le> h"
    and fts: "\<forall>y<m. raw ! (y * (1 + rl)) \<le> 4"
  shows "\<exists>out. for_loop [0..<m] (row_body path raw rl bpp) (0, replicate (h * rl) 0) =
                Inr (m * (1 + rl), out) \<and>
              length out = h * rl \<and>
              (\<forall>y<m. \<forall>x<rl. out ! (y * rl + x) = spec_raster_byte raw rl bpp out y x)"
  using m fts
proof (induction m)
  case 0
  then show ?case by simp
next
  case (Suc m)
  have "m \<le> h" using Suc.prems(1) by simp
  moreover have "\<forall>y<m. raw ! (y * (1 + rl)) \<le> 4" using Suc.prems(2) by simp
  ultimately have "\<exists>out. for_loop [0..<m] (row_body path raw rl bpp) (0, replicate (h * rl) 0) =
                Inr (m * (1 + rl), out) \<and>
              length out = h * rl \<and>
              (\<forall>y<m. \<forall>x<rl. out ! (y * rl + x) = spec_raster_byte raw rl bpp out y x)"
    by (rule Suc.IH)
  then obtain out where
    run: "for_loop [0..<m] (row_body path raw rl bpp) (0, replicate (h * rl) 0) =
            Inr (m * (1 + rl), out)"
    and out: "length out = h * rl"
    and rows: "\<forall>y<m. \<forall>x<rl. out ! (y * rl + x) = spec_raster_byte raw rl bpp out y x"
    by blast
  from Suc.prems have mh: "m < h" and ft: "raw ! (m * (1 + rl)) \<le> 4" by simp_all
  let ?new = "\<lambda>r. take (m * rl) out @ r @ drop ((m + 1) * rl) out"
  obtain r where
    body: "row_body path raw rl bpp m (m * (1 + rl), out) = Inr (Suc m * (1 + rl), ?new r)"
    and r: "length r = rl"
    and rx: "\<forall>x<rl. r ! x = spec_inverse_filter (raw ! (m * (1 + rl)))
                      (raw ! (m * (1 + rl) + 1 + x))
                      (if bpp \<le> x then r ! (x - bpp) else 0)
                      (if m = 0 then 0 else out ! ((m - 1) * rl + x))
                      (if bpp \<le> x then (if m = 0 then 0 else out ! ((m - 1) * rl + (x - bpp))) else 0)"
    using row_body_spec [OF len bpp mh ft out, of path] by blast
  note sp = splice_row [OF out mh r]
  have run': "for_loop [0..<Suc m] (row_body path raw rl bpp) (0, replicate (h * rl) 0) =
                Inr (Suc m * (1 + rl), ?new r)"
    unfolding for_loop_Suc using run body by simp
  have "?new r ! (y * rl + x) = spec_raster_byte raw rl bpp (?new r) y x"
    if y: "y < Suc m" and x: "x < rl" for y x
  proof (cases "y = m")
    case False
    with y have ym: "y < m" by simp
    have same: "?new r ! i = out ! i" if "i < Suc y * rl" for i
    proof -
      have "Suc y * rl \<le> m * rl" using ym by (intro mult_le_mono1) simp
      then show ?thesis using that by (intro sp(2)) simp
    qed
    have "?new r ! (y * rl + x) = out ! (y * rl + x)"
      using x by (intro same) simp
    also have "\<dots> = spec_raster_byte raw rl bpp out y x" using rows ym x by simp
    also have "\<dots> = spec_raster_byte raw rl bpp (?new r) y x"
      using same x by (intro spec_raster_byte_cong [symmetric]) simp_all
    finally show ?thesis .
  next
    case True
    have xb: "x - bpp < rl" using x by simp
    have above: "?new r ! ((m - 1) * rl + k) = out ! ((m - 1) * rl + k)" if "k < rl" "m \<noteq> 0" for k
    proof -
      have "(m - 1) * rl + k < m * rl" using that by (intro idx_lt) simp_all
      then show ?thesis by (rule sp(2))
    qed
    have up: "(if m = 0 then 0 else ?new r ! ((m - 1) * rl + k)) =
              (if m = 0 then 0 else out ! ((m - 1) * rl + k))" if "k < rl" for k
      by (rule if_cong [OF refl refl]) (rule above [OF that])
    have left: "(if x < bpp then 0 else ?new r ! (m * rl + (x - bpp))) =
                (if x < bpp then 0 else r ! (x - bpp))"
      by (rule if_cong [OF refl refl]) (rule sp(3) [OF xb])
    have up_left:
      "(if x < bpp then 0 else if m = 0 then 0 else ?new r ! ((m - 1) * rl + (x - bpp))) =
       (if x < bpp then 0 else if m = 0 then 0 else out ! ((m - 1) * rl + (x - bpp)))"
      by (rule if_cong [OF refl refl]) (rule up [OF xb])
    have flip: "(if bpp \<le> x then u else (0::nat)) = (if x < bpp then 0 else u)" for u
      by (simp add: not_less)
    have "?new r ! (m * rl + x) = r ! x" by (rule sp(3) [OF x])
    also have "\<dots> = spec_inverse_filter (raw ! (m * (1 + rl)))
                      (raw ! (m * (1 + rl) + 1 + x))
                      (if x < bpp then 0 else r ! (x - bpp))
                      (if m = 0 then 0 else out ! ((m - 1) * rl + x))
                      (if x < bpp then 0 else if m = 0 then 0 else out ! ((m - 1) * rl + (x - bpp)))"
      using rx [rule_format, OF x] by (simp only: flip)
    finally show ?thesis
      unfolding True spec_raster_byte_def Let_def
      by (simp only: left up [OF x] up_left)
  qed
  then have "\<forall>y<Suc m. \<forall>x<rl. ?new r ! (y * rl + x) = spec_raster_byte raw rl bpp (?new r) y x"
    by simp
  with run' sp(1) show ?case by (intro exI [of _ "?new r"] conjI)
qed

lemma unfilter_rows_spec:
  assumes len: "length raw = h * (1 + rl)" and bpp: "0 < bpp"
    and fts: "\<forall>y<h. raw ! (y * (1 + rl)) \<le> 4"
  shows "\<exists>out. unfilter_rows path raw h rl bpp = Inr out \<and> length out = h * rl \<and>
           (\<forall>y<h. \<forall>x<rl. out ! (y * rl + x) = spec_raster_byte raw rl bpp out y x)"
proof -
  obtain out where
    "for_loop [0..<h] (row_body path raw rl bpp) (0, replicate (h * rl) 0) = Inr (h * (1 + rl), out)"
    "length out = h * rl"
    "\<forall>y<h. \<forall>x<rl. out ! (y * rl + x) = spec_raster_byte raw rl bpp out y x"
    using rows_prefix [OF len bpp le_refl fts, of path] by blast
  then show ?thesis by (simp add: unfilter_rows_def ebind_def)
qed

lemma for_loop_Inl:
  "for_loop xs body s = Inl e \<Longrightarrow> for_loop (xs @ ys) body s = Inl e"
  by (simp add: for_loop_append)

lemma unfilter_unknown:
  "4 < ft \<Longrightarrow> unfilter path ft rl bpp prev row =
     Inl (ValueError (path @ '' has unknown PNG filter type: '' @ str_nat ft))"
  by (simp add: unfilter_def)

text \<open>The first row with an unknown filter type stops the reconstruction.\<close>

lemma unfilter_rows_unknown:
  assumes len: "length raw = h * (1 + rl)" and bpp: "0 < bpp" and y: "y < h"
    and fts: "\<forall>y'<y. raw ! (y' * (1 + rl)) \<le> 4"
    and bad: "4 < raw ! (y * (1 + rl))"
  shows "unfilter_rows path raw h rl bpp =
           Inl (ValueError (path @ '' has unknown PNG filter type: '' @
                  str_nat (raw ! (y * (1 + rl)))))"
proof -
  let ?e = "ValueError (path @ '' has unknown PNG filter type: '' @ str_nat (raw ! (y * (1 + rl))))"
  let ?body = "row_body path raw rl bpp"
  let ?s0 = "(0::nat, replicate (h * rl) (0::nat))"
  have yh: "y \<le> h" using y by simp
  obtain out where run: "for_loop [0..<y] ?body ?s0 = Inr (y * (1 + rl), out)"
    using rows_prefix [OF len bpp yh fts, of path] by blast
  have "Suc y * (1 + rl) \<le> h * (1 + rl)" using y by (intro mult_le_mono1) simp
  then have i_lt: "y * (1 + rl) < length raw" using len by simp
  have body: "?body y (y * (1 + rl), out) = Inl ?e"
    using i_lt bad by (simp add: row_body_def getitem_def ebind_def Let_def unfilter_unknown)
  have "for_loop [0..<Suc y] ?body ?s0 = Inl ?e"
    unfolding for_loop_Suc using run body by simp
  then have "for_loop ([0..<Suc y] @ [Suc y..<h]) ?body ?s0 = Inl ?e"
    by (rule for_loop_Inl)
  moreover have "[0..<Suc y] @ [Suc y..<h] = [0..<h]"
  proof -
    have "[0..<Suc y + (h - Suc y)] = [0..<Suc y] @ [Suc y..<Suc y + (h - Suc y)]"
      by (rule upt_add_eq_append) simp
    moreover have "Suc y + (h - Suc y) = h" using y by simp
    ultimately show ?thesis by simp
  qed
  ultimately have "for_loop [0..<h] ?body ?s0 = Inl ?e" by simp
  then show ?thesis by (simp add: unfilter_rows_def ebind_def)
qed

text \<open>Either every row has a known filter type, or there is a first row that has not.\<close>

lemma first_unknown:
  assumes "\<not> (\<forall>y<h. raw ! (y * (1 + rl)) \<le> (4::nat))"
  shows "\<exists>y<h. 4 < raw ! (y * (1 + rl)) \<and> (\<forall>y'<y. raw ! (y' * (1 + rl)) \<le> 4)"
proof -
  let ?P = "\<lambda>y. y < h \<and> 4 < raw ! (y * (1 + rl))"
  from assms obtain y0 where "?P y0" by (auto simp: not_le)
  then have "?P (LEAST y. ?P y)" by (rule LeastI)
  moreover have "\<not> ?P y'" if "y' < (LEAST y. ?P y)" for y'
    using that by (rule not_less_Least)
  ultimately show ?thesis
    by (intro exI [of _ "LEAST y. ?P y"]) (force simp: not_less)
qed

lemma unfilter_rows_no_IndexError:
  assumes len: "length raw = h * (1 + rl)" and bpp: "0 < bpp"
  shows "unfilter_rows path raw h rl bpp \<noteq> Inl (IndexError m)"
proof (cases "\<forall>y<h. raw ! (y * (1 + rl)) \<le> 4")
  case True
  from unfilter_rows_spec [OF len bpp True, of path] show ?thesis by auto
next
  case False
  then obtain y where "y < h" "4 < raw ! (y * (1 + rl))" "\<forall>y'<y. raw ! (y' * (1 + rl)) \<le> 4"
    using first_unknown by blast
  from unfilter_rows_unknown [OF len bpp this(1,3,2), of path] show ?thesis by simp
qed

lemma unfilter_rows_Inr_known:
  assumes len: "length raw = h * (1 + rl)" and bpp: "0 < bpp"
    and run: "unfilter_rows path raw h rl bpp = Inr out"
  shows "\<forall>y<h. raw ! (y * (1 + rl)) \<le> 4"
proof (rule ccontr)
  assume "\<not> (\<forall>y<h. raw ! (y * (1 + rl)) \<le> 4)"
  then obtain y where "y < h" "4 < raw ! (y * (1 + rl))" "\<forall>y'<y. raw ! (y' * (1 + rl)) \<le> 4"
    using first_unknown by blast
  from unfilter_rows_unknown [OF len bpp this(1,3,2), of path] run show False by simp
qed

section \<open>Auxiliary facts about the chunk reader and the decision\<close>

lemma chunk_loop_end: "\<not> i < length data \<Longrightarrow> chunk_loop path data i st = Inr st"
  by (subst chunk_loop.simps) simp

lemma chunk_loop_truncated_header:
  "i < length data \<Longrightarrow> length data < i + 8 \<Longrightarrow>
   chunk_loop path data i st = Inl (ValueError (path @ '' is truncated (invalid chunk header)''))"
  by (subst chunk_loop.simps) simp

lemma chunk_loop_truncated_length:
  "i < length data \<Longrightarrow> \<not> length data < i + 8 \<Longrightarrow>
   length data < i + 8 + be_uint (slice data i (i + 4)) + 4 \<Longrightarrow>
   chunk_loop path data i st = Inl (ValueError (path @ '' is truncated (invalid chunk length)''))"
  by (subst chunk_loop.simps) (simp add: Let_def)

lemma chunk_loop_chunk:
  assumes "i < length data" and "\<not> length data < i + 8"
    and "\<not> length data < i + 8 + be_uint (slice data i (i + 4)) + 4"
  shows "chunk_loop path data i st =
     (if slice data (i + 4) (i + 8) = IHDR then
        (case unpack_IHDR (slice data (i + 8) (i + 8 + be_uint (slice data i (i + 4)))) of
           Inl e \<Rightarrow> Inl e
         | Inr (w, h, bd, ct) \<Rightarrow>
             chunk_loop path data (i + 8 + be_uint (slice data i (i + 4)) + 4)
               (st\<lparr>width := Some w, height := Some h, bit_depth := Some bd, color_type := Some ct\<rparr>))
      else if slice data (i + 4) (i + 8) = tRNS then
        chunk_loop path data (i + 8 + be_uint (slice data i (i + 4)) + 4)
          (st\<lparr>trns_chunk := Some (slice data (i + 8) (i + 8 + be_uint (slice data i (i + 4))))\<rparr>)
      else if slice data (i + 4) (i + 8) = IDAT then
        chunk_loop path data (i + 8 + be_uint (slice data i (i + 4)) + 4)
          (st\<lparr>idat := idat st @ slice data (i + 8) (i + 8 + be_uint (slice data i (i + 4)))\<rparr>)
      else if slice data (i + 4) (i + 8) = IEND then Inr st
      else chunk_loop path data (i + 8 + be_uint (slice data i (i + 4)) + 4) st)"
  using assms by (subst chunk_loop.simps) (simp add: Let_def)

lemma chunk_loop_header:
  "chunk_loop path data i st = Inr st' \<Longrightarrow> header_all_or_none st \<Longrightarrow> header_all_or_none st'"
proof (induction path data i st rule: chunk_loop.induct)
  case (1 path data i st)
  note run = "1.prems"(1) and inv = "1.prems"(2)
  let ?len = "be_uint (slice data i (i + 4))"
  let ?ty = "slice data (i + 4) (i + 8)"
  let ?crc = "i + 8 + ?len + 4"
  let ?cd = "slice data (i + 8) (i + 8 + ?len)"
  show ?case
  proof (cases "i < length data")
    case False
    then show ?thesis using run inv by (simp add: chunk_loop_end)
  next
    case lt: True
    show ?thesis
    proof (cases "length data < i + 8")
      case True
      then show ?thesis using run lt by (simp add: chunk_loop_truncated_header)
    next
      case hd: False
      show ?thesis
      proof (cases "length data < ?crc")
        case True
        then show ?thesis using run lt hd by (simp add: chunk_loop_truncated_length)
      next
        case crc: False
        note eq = chunk_loop_chunk [OF lt hd crc, of path st]
        consider (ihdr) "?ty = IHDR" | (trns) "?ty \<noteq> IHDR" "?ty = tRNS"
          | (idat) "?ty \<noteq> IHDR" "?ty \<noteq> tRNS" "?ty = IDAT"
          | (iend) "?ty \<noteq> IHDR" "?ty \<noteq> tRNS" "?ty \<noteq> IDAT" "?ty = IEND"
          | (other) "?ty \<noteq> IHDR" "?ty \<noteq> tRNS" "?ty \<noteq> IDAT" "?ty \<noteq> IEND"
          by blast
        then show ?thesis
        proof cases
          case ihdr
          from run eq ihdr obtain w h bd ct where
            u: "unpack_IHDR ?cd = Inr (w, h, bd, ct)" and
            rec: "chunk_loop path data ?crc
                    (st\<lparr>width := Some w, height := Some h, bit_depth := Some bd,
                        color_type := Some ct\<rparr>) = Inr st'"
            by (auto split: sum.splits prod.splits)
          have "header_all_or_none
                  (st\<lparr>width := Some w, height := Some h, bit_depth := Some bd,
                      color_type := Some ct\<rparr>)"
            by (simp add: header_all_or_none_def)
          with "1.IH"(1) [OF lt hd refl refl refl refl refl crc refl ihdr u refl refl refl rec]
          show ?thesis .
        next
          case trns
          from run eq trns have
            rec: "chunk_loop path data ?crc (st\<lparr>trns_chunk := Some ?cd\<rparr>) = Inr st'" by simp
          have "header_all_or_none (st\<lparr>trns_chunk := Some ?cd\<rparr>)"
            using inv by (simp add: header_all_or_none_def)
          with "1.IH"(2) [OF lt hd refl refl refl refl refl crc refl trns rec]
          show ?thesis .
        next
          case idat
          from run eq idat have
            rec: "chunk_loop path data ?crc (st\<lparr>idat := idat st @ ?cd\<rparr>) = Inr st'" by simp
          have "header_all_or_none (st\<lparr>idat := idat st @ ?cd\<rparr>)"
            using inv by (simp add: header_all_or_none_def)
          with "1.IH"(3) [OF lt hd refl refl refl refl refl crc refl idat rec]
          show ?thesis .
        next
          case iend
          from run eq iend have "st' = st" by simp
          then show ?thesis using inv by simp
        next
          case other
          from run eq other have rec: "chunk_loop path data ?crc st = Inr st'" by simp
          from "1.IH"(4) [OF lt hd refl refl refl refl refl crc refl other rec inv]
          show ?thesis .
        qed
      qed
    qed
  qed
qed

lemma header_init: "header_all_or_none init_state"
  by (simp add: header_all_or_none_def init_state_def)

lemma parsed_header:
  assumes "chunk_loop path data (length PNG_SIGNATURE) init_state = Inr st"
    and "color_type st = Some ct"
  shows "\<exists>w h bd. width st = Some w \<and> height st = Some h \<and> bit_depth st = Some bd"
  using chunk_loop_header [OF assms(1) header_init] assms(2)
  by (auto simp: header_all_or_none_def)

lemma png_decoded:
  assumes "take (length PNG_SIGNATURE) data = PNG_SIGNATURE"
    and "chunk_loop path data (length PNG_SIGNATURE) init_state = Inr st"
    and "width st = Some w" and "height st = Some h"
    and "bit_depth st = Some 8" and "color_type st = Some ct"
  shows "png_has_transparency inflate path data =
           (if ct = 6 then decode_raster inflate path st w h ct 4
            else if ct = 3 then decode_raster inflate path st w h ct 1
            else if ct = 0 \<or> ct = 2 \<or> ct = 4 then Inr False
            else Inl (ValueError (path @ '' has unsupported color type: '' @ str_nat ct)))"
  using assms by (simp add: png_has_transparency_def ebind_def Let_def)

lemma png_Inr_parsed:
  assumes "png_has_transparency inflate path data = Inr b"
  shows "\<exists>st w h ct. take (length PNG_SIGNATURE) data = PNG_SIGNATURE \<and>
           chunk_loop path data (length PNG_SIGNATURE) init_state = Inr st \<and>
           width st = Some w \<and> height st = Some h \<and> bit_depth st = Some 8 \<and>
           color_type st = Some ct"
  using assms
  by (auto simp: png_has_transparency_def ebind_def Let_def split: if_splits sum.splits)

lemma collect_failures_concat:
  "collect_failures inflate fs ps acc = acc @ concat (map (check_icon inflate fs) ps)"
  by (induction ps arbitrary: acc) simp_all

lemma example_signature: "take (length PNG_SIGNATURE) (example_png bd ct extra) = PNG_SIGNATURE"
  by (simp add: example_png_def PNG_SIGNATURE_def)

lemma decode_raster_sized:
  assumes "inflate (idat st) = Inr raw" and "length raw = h * (1 + w * bpp)"
  shows "decode_raster inflate path st w h ct bpp =
           ebind (unfilter_rows path raw h (w * bpp) bpp) (\<lambda>out.
             if ct = 6 then Inr (list_ex (\<lambda>a. a < 255) (alpha_bytes out))
             else (case trns_chunk st of
                     None \<Rightarrow> Inr False
                   | Some t \<Rightarrow> Inr (list_ex (\<lambda>a. a < 255) t)))"
  using assms by (simp add: decode_raster_def Let_def)

lemma decode_raster_Inr:
  assumes "decode_raster inflate path st w h ct bpp = Inr b"
  shows "\<exists>raw out. inflate (idat st) = Inr raw \<and> length raw = h * (1 + w * bpp) \<and>
           unfilter_rows path raw h (w * bpp) bpp = Inr out \<and>
           b = (if ct = 6 then list_ex (\<lambda>a. a < 255) (alpha_bytes out)
                else (case trns_chunk st of None \<Rightarrow> False
                      | Some t \<Rightarrow> list_ex (\<lambda>a. a < 255) t))"
  using assms
  by (auto simp: decode_raster_def Let_def ebind_def split: sum.splits if_splits option.splits)

lemma alpha_bytes_ex:
  "list_ex (\<lambda>a. a < 255) (alpha_bytes out) \<longleftrightarrow> (\<exists>k. 4 * k + 3 < length out \<and> out ! (4 * k + 3) < 255)"
proof
  assume "list_ex (\<lambda>a. a < 255) (alpha_bytes out)"
  then obtain i where i: "i < length out" "i mod 4 = 3" "out ! i < 255"
    by (auto simp: list_ex_iff alpha_bytes_def)
  have "4 * (i div 4) + 3 = i" using i(2) by presburger
  with i show "\<exists>k. 4 * k + 3 < length out \<and> out ! (4 * k + 3) < 255"
    by (intro exI [of _ "i div 4"]) simp
next
  assume "\<exists>k. 4 * k + 3 < length out \<and> out ! (4 * k + 3) < 255"
  then obtain k where k: "4 * k + 3 < length out" "out ! (4 * k + 3) < 255" by blast
  have "(4 * k + 3) mod 4 = 3" by presburger
  with k show "list_ex (\<lambda>a. a < 255) (alpha_bytes out)"
    unfolding list_ex_iff alpha_bytes_def by (intro bexI [of _ "out ! (4 * k + 3)"]) auto
qed

lemma first_unknown_upto:
  assumes "4 < raw ! (y * (1 + rl))"
  shows "\<exists>y'\<le>y. 4 < raw ! (y' * (1 + rl)) \<and> (\<forall>y''<y'. raw ! (y'' * (1 + rl)) \<le> (4::nat))"
proof -
  have "\<not> (\<forall>y'<Suc y. raw ! (y' * (1 + rl)) \<le> 4)" using assms by (auto simp: not_le)
  from first_unknown [OF this] show ?thesis by (auto simp: less_Suc_eq_le)
qed

lemma collect_failures_split:
  "collect_failures inflate fs (before @ p # after) [] =
     collect_failures inflate fs before [] @ check_icon inflate fs p @
     collect_failures inflate fs after []"
  by (simp add: collect_failures_concat)

lemma chunk_types_end: "\<not> i < length data \<Longrightarrow> chunk_types data i = []"
  by (subst chunk_types.simps) simp

lemma chunk_types_chunk:
  assumes "i < length data" and "\<not> length data < i + 8"
    and "\<not> length data < i + 8 + be_uint (slice data i (i + 4)) + 4"
  shows "chunk_types data i =
     (if slice data (i + 4) (i + 8) = IEND then [slice data (i + 4) (i + 8)]
      else slice data (i + 4) (i + 8) #
           chunk_types data (i + 8 + be_uint (slice data i (i + 4)) + 4))"
  using assms by (subst chunk_types.simps) (simp add: Let_def)

lemma chunk_loop_no_IHDR:
  "chunk_loop path data i st = Inr st' \<Longrightarrow> IHDR \<notin> set (chunk_types data i) \<Longrightarrow>
   same_header st st'"
proof (induction path data i st rule: chunk_loop.induct)
  case (1 path data i st)
  note run = "1.prems"(1) and no = "1.prems"(2)
  let ?len = "be_uint (slice data i (i + 4))"
  let ?ty = "slice data (i + 4) (i + 8)"
  let ?crc = "i + 8 + ?len + 4"
  let ?cd = "slice data (i + 8) (i + 8 + ?len)"
  show ?case
  proof (cases "i < length data")
    case False
    then show ?thesis using run by (simp add: chunk_loop_end same_header_def)
  next
    case lt: True
    show ?thesis
    proof (cases "length data < i + 8")
      case True
      then show ?thesis using run lt by (simp add: chunk_loop_truncated_header)
    next
      case hd: False
      show ?thesis
      proof (cases "length data < ?crc")
        case True
        then show ?thesis using run lt hd by (simp add: chunk_loop_truncated_length)
      next
        case crc: False
        note eq = chunk_loop_chunk [OF lt hd crc, of path st]
        note tys = chunk_types_chunk [OF lt hd crc]
        have not_ihdr: "?ty \<noteq> IHDR" using no tys by (auto split: if_splits)
        consider (trns) "?ty = tRNS"
          | (idat) "?ty \<noteq> tRNS" "?ty = IDAT"
          | (iend) "?ty \<noteq> tRNS" "?ty \<noteq> IDAT" "?ty = IEND"
          | (other) "?ty \<noteq> tRNS" "?ty \<noteq> IDAT" "?ty \<noteq> IEND"
          by blast
        then show ?thesis
        proof cases
          case trns
          then have "?ty \<noteq> IEND" by (simp add: tRNS_def IEND_def)
          with no tys have rest: "IHDR \<notin> set (chunk_types data ?crc)" by simp
          from run eq not_ihdr trns have
            rec: "chunk_loop path data ?crc (st\<lparr>trns_chunk := Some ?cd\<rparr>) = Inr st'" by simp
          from "1.IH"(2) [OF lt hd refl refl refl refl refl crc refl not_ihdr trns rec rest]
          show ?thesis by (simp add: same_header_def)
        next
          case idat
          then have "?ty \<noteq> IEND" by (simp add: IDAT_def IEND_def)
          with no tys have rest: "IHDR \<notin> set (chunk_types data ?crc)" by simp
          from run eq not_ihdr idat have
            rec: "chunk_loop path data ?crc (st\<lparr>idat := idat st @ ?cd\<rparr>) = Inr st'" by simp
          from "1.IH"(3) [OF lt hd refl refl refl refl refl crc refl not_ihdr idat rec rest]
          show ?thesis by (simp add: same_header_def)
        next
          case iend
          from run eq not_ihdr iend have "st' = st" by simp
          then show ?thesis by (simp add: same_header_def)
        next
          case other
          with no tys have rest: "IHDR \<notin> set (chunk_types data ?crc)" by simp
          from run eq not_ihdr other have rec: "chunk_loop path data ?crc st = Inr st'" by simp
          from "1.IH"(4) [OF lt hd refl refl refl refl refl crc refl not_ihdr other rec rest]
          show ?thesis .
        qed
      qed
    qed
  qed
qed

lemma chunk_loop_no_tRNS:
  "chunk_loop path data i st = Inr st' \<Longrightarrow> tRNS \<notin> set (chunk_types data i) \<Longrightarrow>
   trns_chunk st' = trns_chunk st"
proof (induction path data i st rule: chunk_loop.induct)
  case (1 path data i st)
  note run = "1.prems"(1) and no = "1.prems"(2)
  let ?len = "be_uint (slice data i (i + 4))"
  let ?ty = "slice data (i + 4) (i + 8)"
  let ?crc = "i + 8 + ?len + 4"
  let ?cd = "slice data (i + 8) (i + 8 + ?len)"
  show ?case
  proof (cases "i < length data")
    case False
    then show ?thesis using run by (simp add: chunk_loop_end)
  next
    case lt: True
    show ?thesis
    proof (cases "length data < i + 8")
      case True
      then show ?thesis using run lt by (simp add: chunk_loop_truncated_header)
    next
      case hd: False
      show ?thesis
      proof (cases "length data < ?crc")
        case True
        then show ?thesis using run lt hd by (simp add: chunk_loop_truncated_length)
      next
        case crc: False
        note eq = chunk_loop_chunk [OF lt hd crc, of path st]
        note tys = chunk_types_chunk [OF lt hd crc]
        have not_trns: "?ty \<noteq> tRNS" using no tys by (auto split: if_splits)
        consider (ihdr) "?ty = IHDR"
          | (idat) "?ty \<noteq> IHDR" "?ty = IDAT"
          | (iend) "?ty \<noteq> IHDR" "?ty \<noteq> IDAT" "?ty = IEND"
          | (other) "?ty \<noteq> IHDR" "?ty \<noteq> IDAT" "?ty \<noteq> IEND"
          by blast
        then show ?thesis
        proof cases
          case ihdr
          then have "?ty \<noteq> IEND" by (simp add: IHDR_def IEND_def)
          with no tys have rest: "tRNS \<notin> set (chunk_types data ?crc)" by simp
          from run eq ihdr obtain w h bd ct where
            u: "unpack_IHDR ?cd = Inr (w, h, bd, ct)" and
            rec: "chunk_loop path data ?crc
                    (st\<lparr>width := Some w, height := Some h, bit_depth := Some bd,
                        color_type := Some ct\<rparr>) = Inr st'"
            by (auto split: sum.splits prod.splits)
          from "1.IH"(1) [OF lt hd refl refl refl refl refl crc refl ihdr u refl refl refl rec rest]
          show ?thesis by simp
        next
          case idat
          then have "?ty \<noteq> IEND" by (simp add: IDAT_def IEND_def)
          with no tys have rest: "tRNS \<notin> set (chunk_types data ?crc)" by simp
          from run eq not_trns idat have
            rec: "chunk_loop path data ?crc (st\<lparr>idat := idat st @ ?cd\<rparr>) = Inr st'" by simp
          from "1.IH"(3) [OF lt hd refl refl refl refl refl crc refl idat(1) not_trns idat(2) rec rest]
          show ?thesis by simp
        next
          case iend
          from run eq not_trns iend have "st' = st" by simp
          then show ?thesis by simp
        next
          case other
          with no tys have rest: "tRNS \<notin> set (chunk_types data ?crc)" by simp
          from run eq not_trns other have rec: "chunk_loop path data ?crc st = Inr st'" by simp
          from "1.IH"(4) [OF lt hd refl refl refl refl refl crc refl other(1) not_trns other(2,3) rec rest]
          show ?thesis .
        qed
      qed
    qed
  qed
qed

lemma chunk_offsets_end: "\<not> i < length data \<Longrightarrow> chunk_offsets data i = []"
  by (subst chunk_offsets.simps) simp

lemma chunk_offsets_truncated:
  "i < length data \<Longrightarrow> truncated_at data i \<Longrightarrow> chunk_offsets data i = [i]"
  by (subst chunk_offsets.simps) (auto simp: truncated_at_def Let_def)

lemma chunk_offsets_chunk:
  assumes "i < length data" and "\<not> length data < i + 8"
    and "\<not> length data < i + 8 + be_uint (slice data i (i + 4)) + 4"
  shows "chunk_offsets data i =
     (if slice data (i + 4) (i + 8) = IEND then [i]
      else i # chunk_offsets data (i + 8 + be_uint (slice data i (i + 4)) + 4))"
  using assms by (subst chunk_offsets.simps) (simp add: Let_def)

lemma unpack_IHDR_13:
  "length cd = 13 \<Longrightarrow> \<exists>w h bd ct. unpack_IHDR cd = Inr (w, h, bd, ct)"
  by (simp add: unpack_IHDR_def)

lemma unpack_IHDR_not_13:
  "length cd \<noteq> 13 \<Longrightarrow> unpack_IHDR cd = Inl (StructError ''unpack requires a buffer of 13 bytes'')"
  by (simp add: unpack_IHDR_def)

lemma chunk_data_length:
  "\<not> length data < i + 8 + n + 4 \<Longrightarrow> length (slice data (i + 8) (i + 8 + n)) = n"
  by (simp add: slice_def)

text \<open>
  The reader started at offset \<open>i\<close> arrives at every chunk \<open>k\<close> of the walk from \<open>i\<close>,
  unless an IHDR chunk before \<open>k\<close> has a payload that is not 13 bytes long and
  \<^verbatim>\<open>struct.unpack\<close> raises there.
\<close>

lemma chunk_loop_reaches:
  "k \<in> set (chunk_offsets data i) \<Longrightarrow>
   (\<exists>st'. chunk_loop path data i st = chunk_loop path data k st') \<or>
   (chunk_loop path data i st = Inl (StructError ''unpack requires a buffer of 13 bytes'') \<and>
    (\<exists>j\<in>set (chunk_offsets data i). j \<noteq> k \<and> slice data (j + 4) (j + 8) = IHDR \<and>
        be_uint (slice data j (j + 4)) \<noteq> 13))"
proof (induction path data i st rule: chunk_loop.induct)
  case (1 path data i st)
  note k = "1.prems"
  let ?len = "be_uint (slice data i (i + 4))"
  let ?ty = "slice data (i + 4) (i + 8)"
  let ?crc = "i + 8 + ?len + 4"
  let ?cd = "slice data (i + 8) (i + 8 + ?len)"
  let ?e = "Inl (StructError ''unpack requires a buffer of 13 bytes'') :: exn + parse_state"
  show ?case
  proof (cases "k = i")
    case True
    then show ?thesis by blast
  next
    case ki: False
    have lt: "i < length data" using k by (cases "i < length data") (simp_all add: chunk_offsets_end)
    have not_tr: "\<not> truncated_at data i" using k ki lt
      by (cases "truncated_at data i") (simp_all add: chunk_offsets_truncated)
    then have hd: "\<not> length data < i + 8" and crc: "\<not> length data < ?crc"
      by (simp_all add: truncated_at_def)
    note eq = chunk_loop_chunk [OF lt hd crc, of path st]
    note offs = chunk_offsets_chunk [OF lt hd crc]
    have not_iend: "?ty \<noteq> IEND" using k ki offs by (auto split: if_splits)
    with offs have cons: "chunk_offsets data i = i # chunk_offsets data ?crc" by simp
    with k ki have rest: "k \<in> set (chunk_offsets data ?crc)" by simp
    have lift: "(\<exists>st'. chunk_loop path data i st = chunk_loop path data k st') \<or>
        (chunk_loop path data i st = ?e \<and>
         (\<exists>j\<in>set (chunk_offsets data i). j \<noteq> k \<and> slice data (j + 4) (j + 8) = IHDR \<and>
             be_uint (slice data j (j + 4)) \<noteq> 13))"
      if step: "chunk_loop path data i st = chunk_loop path data ?crc s"
        and ih: "(\<exists>st'. chunk_loop path data ?crc s = chunk_loop path data k st') \<or>
          (chunk_loop path data ?crc s = ?e \<and>
           (\<exists>j\<in>set (chunk_offsets data ?crc). j \<noteq> k \<and> slice data (j + 4) (j + 8) = IHDR \<and>
               be_uint (slice data j (j + 4)) \<noteq> 13))"
      for s
      using ih unfolding step cons by auto
    consider (ihdr) "?ty = IHDR" | (trns) "?ty \<noteq> IHDR" "?ty = tRNS"
      | (idat) "?ty \<noteq> IHDR" "?ty \<noteq> tRNS" "?ty = IDAT"
      | (other) "?ty \<noteq> IHDR" "?ty \<noteq> tRNS" "?ty \<noteq> IDAT"
      by blast
    then show ?thesis
    proof cases
      case ihdr
      show ?thesis
      proof (cases "?len = 13")
        case True
        have "length ?cd = ?len" by (rule chunk_data_length [OF crc])
        with True have "length ?cd = 13" by (simp only:)
        from unpack_IHDR_13 [OF this] obtain w h bd ct where
          u: "unpack_IHDR ?cd = Inr (w, h, bd, ct)" by blast
        let ?s = "st\<lparr>width := Some w, height := Some h, bit_depth := Some bd,
                       color_type := Some ct\<rparr>"
        have step: "chunk_loop path data i st = chunk_loop path data ?crc ?s"
          using eq ihdr u by simp
        from "1.IH"(1) [OF lt hd refl refl refl refl refl crc refl ihdr u refl refl refl rest]
        show ?thesis by (rule lift [OF step])
      next
        case False
        have "length ?cd = ?len" by (rule chunk_data_length [OF crc])
        with False have "length ?cd \<noteq> 13" by (simp only: not_False_eq_True)
        from unpack_IHDR_not_13 [OF this] eq ihdr
        have "chunk_loop path data i st = ?e" by simp
        moreover have "i \<in> set (chunk_offsets data i)" using cons by simp
        moreover have "i \<noteq> k" using ki by simp
        ultimately show ?thesis using ihdr False
          by (intro disjI2 conjI bexI [of _ i]) simp_all
      qed
    next
      case trns
      have step: "chunk_loop path data i st =
                    chunk_loop path data ?crc (st\<lparr>trns_chunk := Some ?cd\<rparr>)"
        using eq trns by simp
      from "1.IH"(2) [OF lt hd refl refl refl refl refl crc refl trns rest]
      show ?thesis by (rule lift [OF step])
    next
      case idat
      have step: "chunk_loop path data i st =
                    chunk_loop path data ?crc (st\<lparr>idat := idat st @ ?cd\<rparr>)"
        using eq idat by simp
      from "1.IH"(3) [OF lt hd refl refl refl refl refl crc refl idat rest]
      show ?thesis by (rule lift [OF step])
    next
      case other
      have step: "chunk_loop path data i st = chunk_loop path data ?crc st"
        using eq other not_iend by simp
      from "1.IH"(4) [OF lt hd refl refl refl refl refl crc refl other not_iend rest]
      show ?thesis by (rule lift [OF step])
    qed
  qed
qed

lemma chunk_offsets_lt: "k \<in> set (chunk_offsets data i) \<Longrightarrow> k < length data"
proof (induction data i rule: chunk_offsets.induct)
  case (1 data i)
  show ?case
  proof (cases "i < length data")
    case False
    with "1.prems" show ?thesis by (simp add: chunk_offsets_end)
  next
    case lt: True
    show ?thesis
    proof (cases "k = i")
      case True
      with lt show ?thesis by simp
    next
      case ki: False
      have not_tr: "\<not> truncated_at data i" using "1.prems" ki lt
        by (cases "truncated_at data i") (simp_all add: chunk_offsets_truncated)
      then have hd: "\<not> length data < i + 8"
        and crc: "\<not> length data < i + 8 + be_uint (slice data i (i + 4)) + 4"
        by (simp_all add: truncated_at_def)
      note offs = chunk_offsets_chunk [OF lt hd crc]
      have not_iend: "slice data (i + 4) (i + 8) \<noteq> IEND"
        using "1.prems" ki offs by (auto split: if_splits)
      with offs "1.prems" ki
      have "k \<in> set (chunk_offsets data (i + 8 + be_uint (slice data i (i + 4)) + 4))" by simp
      from "1.IH" [OF lt hd refl refl refl crc not_iend this] show ?thesis .
    qed
  qed
qed

lemma png_chunk_error:
  "take (length PNG_SIGNATURE) data = PNG_SIGNATURE \<Longrightarrow>
   chunk_loop path data (length PNG_SIGNATURE) init_state = Inl e \<Longrightarrow>
   png_has_transparency inflate path data = Inl e"
  by (simp add: png_has_transparency_def ebind_def)

lemma chunk_loop_truncated_at:
  "k < length data \<Longrightarrow> truncated_at data k \<Longrightarrow>
   chunk_loop path data k st =
     Inl (ValueError (path @ (if length data < k + 8
                              then '' is truncated (invalid chunk header)''
                              else '' is truncated (invalid chunk length)'')))"
  by (cases "length data < k + 8")
     (simp_all add: truncated_at_def chunk_loop_truncated_header chunk_loop_truncated_length)

lemma chunk_loop_short_IHDR:
  assumes "k < length data" and "\<not> truncated_at data k"
    and "slice data (k + 4) (k + 8) = IHDR" and "be_uint (slice data k (k + 4)) \<noteq> 13"
  shows "chunk_loop path data k st = Inl (StructError ''unpack requires a buffer of 13 bytes'')"
proof -
  let ?len = "be_uint (slice data k (k + 4))"
  from assms(2) have hd: "\<not> length data < k + 8" and crc: "\<not> length data < k + 8 + ?len + 4"
    by (simp_all add: truncated_at_def)
  have "length (slice data (k + 8) (k + 8 + ?len)) = ?len" by (rule chunk_data_length [OF crc])
  with assms(4) have "length (slice data (k + 8) (k + 8 + ?len)) \<noteq> 13" by (simp only: not_False_eq_True)
  from unpack_IHDR_not_13 [OF this] show ?thesis
    unfolding chunk_loop_chunk [OF assms(1) hd crc] using assms(3) by simp
qed

lemma chunk_offsets_self: "i < length data \<Longrightarrow> i \<in> set (chunk_offsets data i)"
  by (subst chunk_offsets.simps) (simp add: Let_def)

text \<open>
  On a container with no IHDR chunk in which every chunk fits, the loop ends without
  raising.
\<close>

lemma chunk_loop_completes:
  "\<forall>j\<in>set (chunk_offsets data i). \<not> truncated_at data j \<Longrightarrow>
   IHDR \<notin> set (chunk_types data i) \<Longrightarrow>
   \<exists>st'. chunk_loop path data i st = Inr st'"
proof (induction path data i st rule: chunk_loop.induct)
  case (1 path data i st)
  note fit = "1.prems"(1) and no = "1.prems"(2)
  let ?len = "be_uint (slice data i (i + 4))"
  let ?ty = "slice data (i + 4) (i + 8)"
  let ?crc = "i + 8 + ?len + 4"
  let ?cd = "slice data (i + 8) (i + 8 + ?len)"
  show ?case
  proof (cases "i < length data")
    case False
    then show ?thesis by (simp add: chunk_loop_end)
  next
    case lt: True
    from fit chunk_offsets_self [OF lt] have "\<not> truncated_at data i" by blast
    then have hd: "\<not> length data < i + 8" and crc: "\<not> length data < ?crc"
      by (simp_all add: truncated_at_def)
    note eq = chunk_loop_chunk [OF lt hd crc, of path st]
    note offs = chunk_offsets_chunk [OF lt hd crc]
    note tys = chunk_types_chunk [OF lt hd crc]
    have not_ihdr: "?ty \<noteq> IHDR" using no tys by (auto split: if_splits)
    show ?thesis
    proof (cases "?ty = IEND")
      case True
      have "?ty \<noteq> tRNS" "?ty \<noteq> IDAT" using True by (simp_all add: tRNS_def IDAT_def IEND_def)
      with eq not_ihdr True show ?thesis by simp
    next
      case not_iend: False
      from fit offs not_iend
      have fit': "\<forall>j\<in>set (chunk_offsets data ?crc). \<not> truncated_at data j" by simp
      from no tys not_iend have no': "IHDR \<notin> set (chunk_types data ?crc)" by simp
      consider (trns) "?ty = tRNS" | (idat) "?ty \<noteq> tRNS" "?ty = IDAT"
        | (other) "?ty \<noteq> tRNS" "?ty \<noteq> IDAT"
        by blast
      then show ?thesis
      proof cases
        case trns
        from "1.IH"(2) [OF lt hd refl refl refl refl refl crc refl not_ihdr trns fit' no']
        show ?thesis using eq not_ihdr trns by simp
      next
        case idat
        from "1.IH"(3) [OF lt hd refl refl refl refl refl crc refl not_ihdr idat fit' no']
        show ?thesis using eq not_ihdr idat by simp
      next
        case other
        from "1.IH"(4) [OF lt hd refl refl refl refl refl crc refl not_ihdr other not_iend fit' no']
        show ?thesis using eq not_ihdr other not_iend by simp
      qed
    qed
  qed
qed

section \<open>The claims\<close>

text \<open>
  Claim C1.  For a decompressed stream of exactly \<open>h * (1 + row_len)\<close> bytes whose
  filter-type bytes are all in 0..4, the reconstruction succeeds with a raster of
  \<open>h * row_len\<close> bytes, and every byte of the raster is the specification's inverse
  filter of its row's type: type 0 leaves the filtered byte, type 1 adds the reconstructed
  byte \<open>bpp\<close> to the left, type 2 the byte above, type 3 the floor of their mean, type 4
  the Paeth predictor of left, above and above-left, each modulo 256.  The source's
  predictor is the specification's (ties go to \<open>a\<close>, then \<open>b\<close>).
\<close>

theorem C1_scanline_reconstruction:
  assumes "length raw = h * (1 + row_len)" and "0 < bpp"
    and "\<forall>y<h. raw ! (y * (1 + row_len)) \<le> 4"
  shows "(\<exists>out. unfilter_rows path raw h row_len bpp = Inr out \<and> length out = h * row_len \<and>
            (\<forall>y<h. \<forall>x<row_len.
               out ! (y * row_len + x) = spec_raster_byte raw row_len bpp out y x)) \<and>
         (\<forall>a b c. paeth a b c = spec_paeth a b c)"
  using unfilter_rows_spec [OF assms, of path] by (simp add: paeth_spec)

theorem C1_scanline_reconstruction_witness:
  "length example_raw = 5 * (1 + 2) \<and>
   unfilter_rows ''icon.png'' example_raw 5 2 1 = Inr [10, 20, 250, 4, 1, 254, 9, 140, 109, 84] \<and>
   (\<exists>out. unfilter_rows ''icon.png'' example_raw 5 2 1 = Inr out \<and> length out = 5 * 2 \<and>
      out ! (4 * 2 + 1) = spec_raster_byte example_raw 2 1 out 4 1)"
proof -
  have len: "length example_raw = 5 * (1 + 2)" by (simp add: example_raw_def)
  have fts: "\<forall>y<5. example_raw ! (y * (1 + 2)) \<le> 4" by code_simp
  have run: "unfilter_rows ''icon.png'' example_raw 5 2 1 =
               Inr [10, 20, 250, 4, 1, 254, 9, 140, 109, 84]" by code_simp
  from C1_scanline_reconstruction [OF len zero_less_one fts, of "''icon.png''"]
  obtain out where out: "unfilter_rows ''icon.png'' example_raw 5 2 1 = Inr out"
      "length out = 5 * 2"
      "\<forall>y<5. \<forall>x<2. out ! (y * 2 + x) = spec_raster_byte example_raw 2 1 out y x"
    by blast
  have "out ! (4 * 2 + 1) = spec_raster_byte example_raw 2 1 out 4 1"
    by (rule out(3) [rule_format]) simp_all
  with len run out(1,2) show ?thesis by blast
qed

text \<open>
  Claim C2.  When \<^verbatim>\<open>png_has_transparency\<close> returns on a file of color type 6, the
  payload was decompressed and the raster of \<open>h * (w * 4)\<close> bytes rebuilt, and the result
  is true exactly when some alpha byte of the raster, the byte at offset 3 of a group of
  four, is less than 255.  One pixel with alpha 254 gives true and with alpha 255 gives
  false.
\<close>

theorem C2_direct_alpha_decision:
  assumes "png_has_transparency inflate path data = Inr b"
    and "chunk_loop path data (length PNG_SIGNATURE) init_state = Inr st"
    and "color_type st = Some 6"
  shows "\<exists>w h raw out. width st = Some w \<and> height st = Some h \<and>
           inflate (idat st) = Inr raw \<and>
           unfilter_rows path raw h (w * 4) 4 = Inr out \<and> length out = h * (w * 4) \<and>
           b = (\<exists>k. 4 * k + 3 < length out \<and> out ! (4 * k + 3) < 255)"
proof -
  from png_Inr_parsed [OF assms(1)] assms(2,3) obtain w h where
    sig: "take (length PNG_SIGNATURE) data = PNG_SIGNATURE"
    and hdr: "width st = Some w" "height st = Some h" "bit_depth st = Some 8"
    by auto
  from png_decoded [OF sig assms(2) hdr assms(3), of inflate] assms(1)
  have "decode_raster inflate path st w h 6 4 = Inr b" by simp
  from decode_raster_Inr [OF this] obtain raw out where
    raw: "inflate (idat st) = Inr raw" "length raw = h * (1 + w * 4)"
    and out: "unfilter_rows path raw h (w * 4) 4 = Inr out"
    and b: "b = list_ex (\<lambda>a. a < 255) (alpha_bytes out)"
    by auto
  have four: "(0::nat) < 4" by simp
  from unfilter_rows_spec [OF raw(2) four unfilter_rows_Inr_known [OF raw(2) four out], of path] out
  have "length out = h * (w * 4)" by auto
  with hdr raw out b show ?thesis by (auto simp: alpha_bytes_ex)
qed

theorem C2_direct_alpha_decision_witness:
  "png_has_transparency (\<lambda>_. Inr [0, 10, 20, 30, 254]) ''icon.png'' (example_png 8 6 []) = Inr True \<and>
   png_has_transparency (\<lambda>_. Inr [0, 10, 20, 30, 255]) ''icon.png'' (example_png 8 6 []) = Inr False \<and>
   (\<exists>out. unfilter_rows ''icon.png'' [0, 10, 20, 30, 254] 1 (1 * 4) 4 = Inr out \<and>
      length out = 1 * (1 * 4) \<and>
      True = (\<exists>k. 4 * k + 3 < length out \<and> out ! (4 * k + 3) < 255))"
proof -
  have r1: "png_has_transparency (\<lambda>_. Inr [0, 10, 20, 30, 254]) ''icon.png'' (example_png 8 6 []) =
              Inr True" by code_simp
  have r2: "png_has_transparency (\<lambda>_. Inr [0, 10, 20, 30, 255]) ''icon.png'' (example_png 8 6 []) =
              Inr False" by code_simp
  have l: "chunk_loop ''icon.png'' (example_png 8 6 []) (length PNG_SIGNATURE) init_state =
             Inr (example_state 8 6 None)" by code_simp
  have c: "color_type (example_state 8 6 None) = Some 6" by (simp add: example_state_def)
  from C2_direct_alpha_decision [OF r1 l c]
  have "\<exists>out. unfilter_rows ''icon.png'' [0, 10, 20, 30, 254] 1 (1 * 4) 4 = Inr out \<and>
      length out = 1 * (1 * 4) \<and>
      True = (\<exists>k. 4 * k + 3 < length out \<and> out ! (4 * k + 3) < 255)"
    by (auto simp: example_state_def)
  with r1 r2 show ?thesis by blast
qed

text \<open>
  Claim C3.  When \<^verbatim>\<open>png_has_transparency\<close> returns on a file of color type 3, the result
  is false if no tRNS chunk was read, and otherwise true exactly when some entry of the
  payload of the last tRNS chunk read is less than 255; a file with no chunk of type tRNS
  gives false.  The right-hand side mentions neither the decompressed stream nor the
  raster: the pixel indices are not consulted.
\<close>

theorem C3_palette_decision:
  assumes "png_has_transparency inflate path data = Inr b"
    and "chunk_loop path data (length PNG_SIGNATURE) init_state = Inr st"
    and "color_type st = Some 3"
  shows "b = (case trns_chunk st of None \<Rightarrow> False | Some t \<Rightarrow> (\<exists>a\<in>set t. a < 255)) \<and>
         (tRNS \<notin> set (chunk_types data (length PNG_SIGNATURE)) \<longrightarrow> \<not> b)"
proof -
  from png_Inr_parsed [OF assms(1)] assms(2,3) obtain w h where
    sig: "take (length PNG_SIGNATURE) data = PNG_SIGNATURE"
    and hdr: "width st = Some w" "height st = Some h" "bit_depth st = Some 8"
    by auto
  from png_decoded [OF sig assms(2) hdr assms(3), of inflate] assms(1)
  have "decode_raster inflate path st w h 3 1 = Inr b" by simp
  from decode_raster_Inr [OF this]
  have b: "b = (case trns_chunk st of None \<Rightarrow> False | Some t \<Rightarrow> (\<exists>a\<in>set t. a < 255))"
    by (auto simp: list_ex_iff split: option.splits)
  have "\<not> b" if "tRNS \<notin> set (chunk_types data (length PNG_SIGNATURE))"
  proof -
    from chunk_loop_no_tRNS [OF assms(2) that] have "trns_chunk st = None"
      by (simp add: init_state_def)
    with b show ?thesis by simp
  qed
  with b show ?thesis by blast
qed

theorem C3_palette_decision_witness:
  "png_has_transparency (\<lambda>_. Inr [0, 0]) ''icon.png''
      (example_png 8 3 (example_chunk tRNS [255, 255])) = Inr False \<and>
   png_has_transparency (\<lambda>_. Inr [0, 0]) ''icon.png''
      (example_png 8 3 (example_chunk tRNS [255, 0])) = Inr True \<and>
   png_has_transparency (\<lambda>_. Inr [0, 0]) ''icon.png'' (example_png 8 3 []) = Inr False \<and>
   True = (case trns_chunk (example_state 8 3 (Some [255, 0])) of
             None \<Rightarrow> False | Some t \<Rightarrow> (\<exists>a\<in>set t. a < 255)) \<and>
   tRNS \<notin> set (chunk_types (example_png 8 3 []) (length PNG_SIGNATURE))"
proof -
  have r1: "png_has_transparency (\<lambda>_. Inr [0, 0]) ''icon.png''
      (example_png 8 3 (example_chunk tRNS [255, 255])) = Inr False" by code_simp
  have r2: "png_has_transparency (\<lambda>_. Inr [0, 0]) ''icon.png''
      (example_png 8 3 (example_chunk tRNS [255, 0])) = Inr True" by code_simp
  have l: "chunk_loop ''icon.png'' (example_png 8 3 (example_chunk tRNS [255, 0]))
             (length PNG_SIGNATURE) init_state = Inr (example_state 8 3 (Some [255, 0]))"
    by code_simp
  have c: "color_type (example_state 8 3 (Some [255, 0])) = Some 3"
    by (simp add: example_state_def)
  have r3': "png_has_transparency (\<lambda>_. Inr [0, 0]) ''icon.png'' (example_png 8 3 []) = Inr False"
    by code_simp
  have t: "tRNS \<notin> set (chunk_types (example_png 8 3 []) (length PNG_SIGNATURE))"
    by code_simp
  from C3_palette_decision [OF r2 l c]
  have "True = (case trns_chunk (example_state 8 3 (Some [255, 0])) of
             None \<Rightarrow> False | Some t \<Rightarrow> (\<exists>a\<in>set t. a < 255))" by blast
  with r1 r2 r3' t show ?thesis by blast
qed

text \<open>
  Claim C4.  On a stream of the expected size the reconstruction never indexes out of
  range, and a neighbour outside the data counts as the byte 0: in the first row the byte
  above and the byte above-left are 0 (a previous row of zeros), and for \<open>x < bpp\<close> the
  bytes to the left and above-left are 0.
\<close>

theorem C4_neighbours_outside_are_zero:
  assumes len: "length raw = h * (1 + row_len)" and bpp: "0 < bpp"
  shows "(\<forall>m. unfilter_rows path raw h row_len bpp \<noteq> Inl (IndexError m)) \<and>
         (\<forall>out. unfilter_rows path raw h row_len bpp = Inr out \<longrightarrow>
            (\<forall>x<row_len. 0 < h \<longrightarrow>
               out ! x = spec_inverse_filter (raw ! 0) (raw ! (1 + x))
                           (if x < bpp then 0 else out ! (x - bpp)) 0 0) \<and>
            (\<forall>y<h. \<forall>x<row_len. x < bpp \<longrightarrow>
               out ! (y * row_len + x) =
                 spec_inverse_filter (raw ! (y * (1 + row_len))) (raw ! (y * (1 + row_len) + 1 + x))
                   0 (if y = 0 then 0 else out ! ((y - 1) * row_len + x)) 0))"
proof (intro conjI allI impI)
  fix m show "unfilter_rows path raw h row_len bpp \<noteq> Inl (IndexError m)"
    by (rule unfilter_rows_no_IndexError [OF len bpp])
next
  fix out x
  assume run: "unfilter_rows path raw h row_len bpp = Inr out" and x: "x < row_len" and h: "0 < h"
  from unfilter_rows_Inr_known [OF len bpp run] unfilter_rows_spec [OF len bpp, of path] run
  have "\<forall>y<h. \<forall>x<row_len. out ! (y * row_len + x) = spec_raster_byte raw row_len bpp out y x"
    by auto
  from this [rule_format, OF h x]
  show "out ! x = spec_inverse_filter (raw ! 0) (raw ! (1 + x))
                           (if x < bpp then 0 else out ! (x - bpp)) 0 0"
    by (simp add: spec_raster_byte_def)
next
  fix out y x
  assume run: "unfilter_rows path raw h row_len bpp = Inr out" and y: "y < h"
    and x: "x < row_len" and xb: "x < bpp"
  from unfilter_rows_Inr_known [OF len bpp run] unfilter_rows_spec [OF len bpp, of path] run
  have "\<forall>y<h. \<forall>x<row_len. out ! (y * row_len + x) = spec_raster_byte raw row_len bpp out y x"
    by auto
  from this [rule_format, OF y x] xb
  show "out ! (y * row_len + x) =
                 spec_inverse_filter (raw ! (y * (1 + row_len))) (raw ! (y * (1 + row_len) + 1 + x))
                   0 (if y = 0 then 0 else out ! ((y - 1) * row_len + x)) 0"
    by (simp add: spec_raster_byte_def)
qed

theorem C4_neighbours_outside_are_zero_witness:
  "length example_first_row = 1 * (1 + 7) \<and>
   unfilter_rows ''icon.png'' example_first_row 1 7 4 = Inr [7, 9, 250, 3, 12, 14, 255] \<and>
   [7, 9, 250, 3, 12, 14, 255 :: nat] ! 5 =
      spec_inverse_filter (example_first_row ! 0) (example_first_row ! (1 + 5))
         (if (5::nat) < 4 then 0 else [7, 9, 250, 3, 12, 14, 255] ! (5 - 4)) 0 0 \<and>
   [7, 9, 250, 3, 12, 14, 255 :: nat] ! (0 * 7 + 2) =
      spec_inverse_filter (example_first_row ! (0 * (1 + 7))) (example_first_row ! (0 * (1 + 7) + 1 + 2))
         0 (if (0::nat) = 0 then 0 else [7, 9, 250, 3, 12, 14, 255] ! ((0 - 1) * 7 + 2)) 0"
proof -
  have len: "length example_first_row = 1 * (1 + 7)" by (simp add: example_first_row_def)
  have bpp: "(0::nat) < 4" by simp
  have run: "unfilter_rows ''icon.png'' example_first_row 1 7 4 = Inr [7, 9, 250, 3, 12, 14, 255]"
    by code_simp
  note c = C4_neighbours_outside_are_zero [OF len bpp, of "''icon.png''", THEN conjunct2,
      rule_format, OF run]
  have a: "[7, 9, 250, 3, 12, 14, 255 :: nat] ! 5 =
      spec_inverse_filter (example_first_row ! 0) (example_first_row ! (1 + 5))
         (if (5::nat) < 4 then 0 else [7, 9, 250, 3, 12, 14, 255] ! (5 - 4)) 0 0"
    by (rule c [THEN conjunct1, rule_format]) simp_all
  have b: "[7, 9, 250, 3, 12, 14, 255 :: nat] ! (0 * 7 + 2) =
      spec_inverse_filter (example_first_row ! (0 * (1 + 7))) (example_first_row ! (0 * (1 + 7) + 1 + 2))
         0 (if (0::nat) = 0 then 0 else [7, 9, 250, 3, 12, 14, 255] ! ((0 - 1) * 7 + 2)) 0"
    by (rule c [THEN conjunct2, rule_format]) simp_all
  from len run a b show ?thesis by blast
qed

text \<open>
  Claim C5, as amended.  The source decompresses only for the color types 6 and 3.  For
  such a file with bit depth 8 whose IDAT payload decompresses to a stream whose length
  differs from \<open>h * (1 + w * bpp)\<close> (\<open>bpp\<close> is 4 for color type 6 and 1 for color
  type 3), \<^verbatim>\<open>png_has_transparency\<close> raises the ValueError "has unexpected decompressed
  size".
\<close>

theorem C5_decompressed_size_mismatch:
  assumes "take (length PNG_SIGNATURE) data = PNG_SIGNATURE"
    and "chunk_loop path data (length PNG_SIGNATURE) init_state = Inr st"
    and "width st = Some w" and "height st = Some h"
    and "bit_depth st = Some 8" and "color_type st = Some ct"
    and "ct = 6 \<and> bpp = 4 \<or> ct = 3 \<and> bpp = 1"
    and "inflate (idat st) = Inr raw"
    and "length raw \<noteq> h * (1 + w * bpp)"
  shows "png_has_transparency inflate path data =
           Inl (ValueError (path @ '' has unexpected decompressed size''))"
  using png_decoded [OF assms(1-6), of inflate] assms(7-)
  by (auto simp: decode_raster_def Let_def)

theorem C5_decompressed_size_mismatch_witness:
  "chunk_loop ''icon.png'' (example_png 8 6 []) (length PNG_SIGNATURE) init_state =
     Inr (example_state 8 6 None) \<and>
   length [0, 10, 20, 30 :: nat] + 1 = 1 * (1 + 1 * 4) \<and>
   png_has_transparency (\<lambda>_. Inr [0, 10, 20, 30]) ''icon.png'' (example_png 8 6 []) =
     Inl (ValueError ''icon.png has unexpected decompressed size'')"
proof -
  have l: "chunk_loop ''icon.png'' (example_png 8 6 []) (length PNG_SIGNATURE) init_state =
             Inr (example_state 8 6 None)" by code_simp
  have f: "width (example_state 8 6 None) = Some 1" "height (example_state 8 6 None) = Some 1"
     "bit_depth (example_state 8 6 None) = Some 8" "color_type (example_state 8 6 None) = Some 6"
    by (simp_all add: example_state_def)
  have "png_has_transparency (\<lambda>_. Inr [0, 10, 20, 30]) ''icon.png'' (example_png 8 6 []) =
     Inl (ValueError (''icon.png'' @ '' has unexpected decompressed size''))"
    by (rule C5_decompressed_size_mismatch
          [OF example_signature l f, where bpp = 4 and raw = "[0, 10, 20, 30]"]) simp_all
  with l show ?thesis by simp
qed

text \<open>
  Claim C5 as stated speaks of every asset.  A file of color type 2 returns before the
  payload is decompressed: with an empty decompressed stream for an image of one row, a
  length that differs from \<open>height * (1 + row_length)\<close> whatever the bytes per pixel, the
  result is \<open>False\<close> and no error.
\<close>

theorem C5_no_alpha_model_counterexample:
  "chunk_loop ''icon.png'' (example_png 8 2 []) (length PNG_SIGNATURE) init_state =
     Inr (example_state 8 2 None) \<and>
   (\<forall>bpp. length ([] :: bytes) \<noteq> 1 * (1 + 1 * bpp)) \<and>
   png_has_transparency (\<lambda>_. Inr []) ''icon.png'' (example_png 8 2 []) = Inr False"
proof -
  have "chunk_loop ''icon.png'' (example_png 8 2 []) (length PNG_SIGNATURE) init_state =
     Inr (example_state 8 2 None)" by code_simp
  moreover have "png_has_transparency (\<lambda>_. Inr []) ''icon.png'' (example_png 8 2 []) = Inr False"
    by code_simp
  ultimately show ?thesis by simp
qed

text \<open>
  Claim C6, as amended.  The source rebuilds the scanlines only for the color types 6 and
  3.  For such a file with bit depth 8 whose decompressed stream has the expected
  size, if some row \<open>y\<close> has a filter-type byte above 4 then \<^verbatim>\<open>png_has_transparency\<close>
  raises the ValueError "has unknown PNG filter type: N" for the first such row, and in
  \<^verbatim>\<open>main\<close> the failure is one line of the report: the files before and after it in
  the list are checked as they would be without it.
\<close>

theorem C6_unknown_filter_type:
  assumes "take (length PNG_SIGNATURE) data = PNG_SIGNATURE"
    and "chunk_loop path data (length PNG_SIGNATURE) init_state = Inr st"
    and "width st = Some w" and "height st = Some h"
    and "bit_depth st = Some 8" and "color_type st = Some ct"
    and "ct = 6 \<and> bpp = 4 \<or> ct = 3 \<and> bpp = 1"
    and "inflate (idat st) = Inr raw"
    and "length raw = h * (1 + w * bpp)"
    and "y < h" and "4 < raw ! (y * (1 + w * bpp))"
  shows "\<exists>y'\<le>y. 4 < raw ! (y' * (1 + w * bpp)) \<and>
           png_has_transparency inflate path data =
             Inl (ValueError (path @ '' has unknown PNG filter type: '' @
                    str_nat (raw ! (y' * (1 + w * bpp))))) \<and>
           (\<forall>fs before after. fs path = Some data \<longrightarrow>
              collect_failures inflate fs (before @ path # after) [] =
                collect_failures inflate fs before [] @
                [''Failed to validate '' @ path @ '': '' @ path @
                   '' has unknown PNG filter type: '' @ str_nat (raw ! (y' * (1 + w * bpp)))] @
                collect_failures inflate fs after [])"
proof -
  from first_unknown_upto [OF assms(11)] obtain y' where
    y': "y' \<le> y" "4 < raw ! (y' * (1 + w * bpp))"
    and before: "\<forall>y''<y'. raw ! (y'' * (1 + w * bpp)) \<le> 4"
    by blast
  let ?m = "path @ '' has unknown PNG filter type: '' @ str_nat (raw ! (y' * (1 + w * bpp)))"
  have bpp: "0 < bpp" using assms(7) by auto
  have yh: "y' < h" using y'(1) assms(10) by simp
  have rows: "unfilter_rows path raw h (w * bpp) bpp = Inl (ValueError ?m)"
    by (rule unfilter_rows_unknown [OF assms(9) bpp yh before y'(2)])
  have "decode_raster inflate path st w h ct bpp = Inl (ValueError ?m)"
    unfolding decode_raster_sized [where inflate = inflate and st = st, OF assms(8,9)] rows
    by (simp add: ebind_def)
  with png_decoded [OF assms(1-6), of inflate] assms(7)
  have res: "png_has_transparency inflate path data = Inl (ValueError ?m)" by auto
  have "collect_failures inflate fs (before @ path # after) [] =
          collect_failures inflate fs before [] @
          [''Failed to validate '' @ path @ '': '' @ ?m] @
          collect_failures inflate fs after []"
    if "fs path = Some data" for fs :: "string \<rightharpoonup> bytes" and before after
    unfolding collect_failures_split using that res by (simp add: check_icon_def)
  with y' res show ?thesis by blast
qed

theorem C6_unknown_filter_type_witness:
  "png_has_transparency (\<lambda>_. Inr [5, 10, 20, 30, 40]) ''src-tauri/icons/32x32.png''
      (example_png 8 6 []) =
     Inl (ValueError ''src-tauri/icons/32x32.png has unknown PNG filter type: 5'') \<and>
   main (\<lambda>_. Inr [5, 10, 20, 30, 40]) example_files =
     ([''Icon transparency check failed:'',
       ''- Failed to validate src-tauri/icons/32x32.png: src-tauri/icons/32x32.png has unknown PNG filter type: 5'',
       ''- Missing icon file: src-tauri/icons/128x128.png'',
       ''- Missing icon file: src-tauri/icons/128x128@2x.png'',
       ''- No transparent pixels found in src-tauri/icons/logo.png''], 1)"
proof -
  let ?p = "''src-tauri/icons/32x32.png''"
  have l: "chunk_loop ?p (example_png 8 6 []) (length PNG_SIGNATURE) init_state =
             Inr (example_state 8 6 None)" by code_simp
  have f: "width (example_state 8 6 None) = Some 1" "height (example_state 8 6 None) = Some 1"
     "bit_depth (example_state 8 6 None) = Some 8" "color_type (example_state 8 6 None) = Some 6"
    by (simp_all add: example_state_def)
  have k: "(6::nat) = 6 \<and> (4::nat) = 4 \<or> (6::nat) = 3 \<and> (4::nat) = 1" by simp
  have i: "(\<lambda>_. Inr [5, 10, 20, 30, 40]) (idat (example_state 8 6 None)) =
             (Inr [5, 10, 20, 30, 40] :: string + bytes)" by simp
  have n: "length [5, 10, 20, 30, 40 :: nat] = 1 * (1 + 1 * 4)" by simp
  have y: "(0::nat) < 1" by simp
  have b: "4 < [5, 10, 20, 30, 40 :: nat] ! (0 * (1 + 1 * 4))" by simp
  have s: "str_nat 5 = ''5''" by code_simp
  from C6_unknown_filter_type [OF example_signature l f k i n y b]
  have "png_has_transparency (\<lambda>_. Inr [5, 10, 20, 30, 40]) ?p (example_png 8 6 []) =
          Inl (ValueError (?p @ '' has unknown PNG filter type: '' @ str_nat 5))"
    by auto
  then have "png_has_transparency (\<lambda>_. Inr [5, 10, 20, 30, 40]) ?p (example_png 8 6 []) =
     Inl (ValueError ''src-tauri/icons/32x32.png has unknown PNG filter type: 5'')"
    by (simp add: s)
  moreover have "main (\<lambda>_. Inr [5, 10, 20, 30, 40]) example_files =
     ([''Icon transparency check failed:'',
       ''- Failed to validate src-tauri/icons/32x32.png: src-tauri/icons/32x32.png has unknown PNG filter type: 5'',
       ''- Missing icon file: src-tauri/icons/128x128.png'',
       ''- Missing icon file: src-tauri/icons/128x128@2x.png'',
       ''- No transparent pixels found in src-tauri/icons/logo.png''], 1)"
    by code_simp
  ultimately show ?thesis by blast
qed

text \<open>
  Claim C6 as stated speaks of every row with a filter-type byte outside 0..4.  A file
  of color type 2 returns before any row is read: with a decompressed stream of the right
  size for one pixel of three bytes whose filter-type byte is 5, the result is \<open>False\<close>
  and no error.
\<close>

theorem C6_no_alpha_model_counterexample:
  "chunk_loop ''icon.png'' (example_png 8 2 []) (length PNG_SIGNATURE) init_state =
     Inr (example_state 8 2 None) \<and>
   length [5, 10, 20, 30 :: nat] = 1 * (1 + 1 * 3) \<and>
   4 < [5, 10, 20, 30 :: nat] ! 0 \<and>
   png_has_transparency (\<lambda>_. Inr [5, 10, 20, 30]) ''icon.png'' (example_png 8 2 []) = Inr False"
  by code_simp

text \<open>
  Claim C7, as amended.  The source accepts five color types: 6 and 3 are decoded, and
  0, 2 and 4 return \<open>False\<close>.  For a parsed header of bit depth 8 whose color type is
  none of the five, \<^verbatim>\<open>png_has_transparency\<close> raises the ValueError "has unsupported
  color type: N".
\<close>

theorem C7_unsupported_color_type:
  assumes "take (length PNG_SIGNATURE) data = PNG_SIGNATURE"
    and "chunk_loop path data (length PNG_SIGNATURE) init_state = Inr st"
    and "bit_depth st = Some 8" and "color_type st = Some ct"
    and "ct \<noteq> 0" "ct \<noteq> 2" "ct \<noteq> 3" "ct \<noteq> 4" "ct \<noteq> 6"
  shows "png_has_transparency inflate path data =
           Inl (ValueError (path @ '' has unsupported color type: '' @ str_nat ct))"
proof -
  from parsed_header [OF assms(2,4)] obtain w h where "width st = Some w" "height st = Some h"
    by blast
  from png_decoded [OF assms(1,2) this assms(3,4), of inflate] assms(5-)
  show ?thesis by simp
qed

theorem C7_unsupported_color_type_witness:
  "chunk_loop ''icon.png'' (example_png 8 7 []) (length PNG_SIGNATURE) init_state =
     Inr (example_state 8 7 None) \<and>
   png_has_transparency (\<lambda>_. Inr [0, 0, 0, 0, 0]) ''icon.png'' (example_png 8 7 []) =
     Inl (ValueError ''icon.png has unsupported color type: 7'')"
proof -
  have l: "chunk_loop ''icon.png'' (example_png 8 7 []) (length PNG_SIGNATURE) init_state =
             Inr (example_state 8 7 None)" by code_simp
  have b: "bit_depth (example_state 8 7 None) = Some 8"
    and c: "color_type (example_state 8 7 None) = Some 7" by (simp_all add: example_state_def)
  have s: "str_nat 7 = ''7''" by code_simp
  have "png_has_transparency (\<lambda>_. Inr [0, 0, 0, 0, 0]) ''icon.png'' (example_png 8 7 []) =
     Inl (ValueError (''icon.png'' @ '' has unsupported color type: '' @ str_nat 7))"
    by (rule C7_unsupported_color_type [OF example_signature l b c]) simp_all
  with l s show ?thesis by simp
qed

text \<open>
  Claim C7 as stated has four recognized values.  Five values pass the color type test
  (0, 2, 3, 4 and 6): whichever set of four values is taken as the recognized ones, some
  value outside it does not raise the unsupported color type error.  And a color type
  outside all five, with a bit depth other than 8, fails with the bit depth error, which
  the source tests first.
\<close>

theorem C7_five_color_types_counterexample:
  "png_has_transparency (\<lambda>_. Inr [0, 0]) ''icon.png'' (example_png 8 0 []) = Inr False \<and>
   png_has_transparency (\<lambda>_. Inr [0, 0]) ''icon.png'' (example_png 8 2 []) = Inr False \<and>
   png_has_transparency (\<lambda>_. Inr [0, 0]) ''icon.png'' (example_png 8 3 []) = Inr False \<and>
   png_has_transparency (\<lambda>_. Inr [0, 0]) ''icon.png'' (example_png 8 4 []) = Inr False \<and>
   png_has_transparency (\<lambda>_. Inr [0, 0, 0, 0, 0]) ''icon.png'' (example_png 8 6 []) = Inr True \<and>
   png_has_transparency (\<lambda>_. Inr [0, 0]) ''icon.png'' (example_png 16 7 []) =
     Inl (ValueError ''icon.png has unsupported bit depth: 16'') \<and>
   \<not> (\<exists>S :: nat set. card S = 4 \<and>
        (\<forall>ct. ct \<notin> S \<longrightarrow>
           png_has_transparency (\<lambda>_. Inr [0, 0, 0, 0, 0]) ''icon.png'' (example_png 8 ct []) =
             Inl (ValueError (''icon.png has unsupported color type: '' @ str_nat ct))))"
proof -
  let ?run = "\<lambda>ct. png_has_transparency (\<lambda>_. Inr [0, 0, 0, 0, 0]) ''icon.png'' (example_png 8 ct [])"
  let ?err = "\<lambda>ct. (Inl (ValueError (''icon.png has unsupported color type: '' @ str_nat ct)) :: exn + bool)"
  have e: "png_has_transparency (\<lambda>_. Inr [0, 0]) ''icon.png'' (example_png 8 0 []) = Inr False"
    "png_has_transparency (\<lambda>_. Inr [0, 0]) ''icon.png'' (example_png 8 2 []) = Inr False"
    "png_has_transparency (\<lambda>_. Inr [0, 0]) ''icon.png'' (example_png 8 3 []) = Inr False"
    "png_has_transparency (\<lambda>_. Inr [0, 0]) ''icon.png'' (example_png 8 4 []) = Inr False"
    "png_has_transparency (\<lambda>_. Inr [0, 0, 0, 0, 0]) ''icon.png'' (example_png 8 6 []) = Inr True"
    "png_has_transparency (\<lambda>_. Inr [0, 0]) ''icon.png'' (example_png 16 7 []) =
       Inl (ValueError ''icon.png has unsupported bit depth: 16'')"
    by code_simp+
  have ok: "?run 0 \<noteq> ?err 0" "?run 2 \<noteq> ?err 2" "?run 3 \<noteq> ?err 3" "?run 4 \<noteq> ?err 4"
    "?run 6 \<noteq> ?err 6"
    by code_simp+
  have "False" if S: "card S = 4" and out: "\<forall>ct. ct \<notin> S \<longrightarrow> ?run ct = ?err ct"
    for S :: "nat set"
  proof -
    have "{0, 2, 3, 4, 6} \<subseteq> S" using ok out by blast
    moreover have "finite S" using S by (simp add: card_ge_0_finite)
    ultimately have "card {0, 2, 3, 4, 6 :: nat} \<le> card S" by (rule card_mono [rotated])
    then show False using S by simp
  qed
  then have "\<not> (\<exists>S :: nat set. card S = 4 \<and> (\<forall>ct. ct \<notin> S \<longrightarrow> ?run ct = ?err ct))"
    by blast
  with e show ?thesis by blast
qed

text \<open>
  Claim C8.  For a file with a valid signature and chunk structure, bit depth 8 and color
  type 0, 2 or 4, \<^verbatim>\<open>png_has_transparency\<close> returns \<open>False\<close> whatever the decompressor
  would answer on the IDAT payload, also when it would raise: the payload is not
  decompressed and no scanline is rebuilt.
\<close>

theorem C8_no_alpha_models_skip_decompression:
  assumes "take (length PNG_SIGNATURE) data = PNG_SIGNATURE"
    and "chunk_loop path data (length PNG_SIGNATURE) init_state = Inr st"
    and "bit_depth st = Some 8" and "color_type st = Some ct"
    and "ct = 0 \<or> ct = 2 \<or> ct = 4"
  shows "png_has_transparency inflate path data = Inr False"
proof -
  from parsed_header [OF assms(2,4)] obtain w h where "width st = Some w" "height st = Some h"
    by blast
  from png_decoded [OF assms(1,2) this assms(3,4), of inflate] assms(5)
  show ?thesis by auto
qed

theorem C8_no_alpha_models_skip_decompression_witness:
  "chunk_loop ''icon.png'' (example_png 8 2 []) (length PNG_SIGNATURE) init_state =
     Inr (example_state 8 2 None) \<and>
   png_has_transparency (\<lambda>_. Inl ''incorrect header check'') ''icon.png'' (example_png 8 2 []) =
     Inr False"
proof -
  have l: "chunk_loop ''icon.png'' (example_png 8 2 []) (length PNG_SIGNATURE) init_state =
             Inr (example_state 8 2 None)" by code_simp
  have b: "bit_depth (example_state 8 2 None) = Some 8"
    and c: "color_type (example_state 8 2 None) = Some 2" by (simp_all add: example_state_def)
  have "png_has_transparency (\<lambda>_. Inl ''incorrect header check'') ''icon.png'' (example_png 8 2 []) =
     Inr False"
    by (rule C8_no_alpha_models_skip_decompression [OF example_signature l b c]) simp
  with l show ?thesis by blast
qed

text \<open>
  Claim C9, as amended.  Let the file begin with the signature and let some chunk of the
  container, at offset \<open>k\<close> of the walk from the signature to the terminal chunk, not fit
  into the buffer.  Then \<^verbatim>\<open>png_has_transparency\<close> raises: either the truncation
  ValueError, "is truncated (invalid chunk header)" when the eight header bytes do not fit
  and "is truncated (invalid chunk length)" otherwise, or \<^verbatim>\<open>struct.error\<close> for an IHDR
  chunk before it.  When every IHDR chunk before it has a payload of 13 bytes, it is the
  truncation error.  The message names the file and the failed check.
\<close>

theorem C9_truncated_container:
  assumes "take (length PNG_SIGNATURE) data = PNG_SIGNATURE"
    and "k \<in> set (chunk_offsets data (length PNG_SIGNATURE))"
    and "truncated_at data k"
  shows "(png_has_transparency inflate path data =
            Inl (ValueError (path @ (if length data < k + 8
                                     then '' is truncated (invalid chunk header)''
                                     else '' is truncated (invalid chunk length)''))) \<or>
          png_has_transparency inflate path data =
            Inl (StructError ''unpack requires a buffer of 13 bytes'')) \<and>
         ((\<forall>j\<in>set (chunk_offsets data (length PNG_SIGNATURE)).
             j \<noteq> k \<longrightarrow> slice data (j + 4) (j + 8) = IHDR \<longrightarrow>
             be_uint (slice data j (j + 4)) = 13) \<longrightarrow>
          png_has_transparency inflate path data =
            Inl (ValueError (path @ (if length data < k + 8
                                     then '' is truncated (invalid chunk header)''
                                     else '' is truncated (invalid chunk length)''))))"
proof -
  let ?t = "Inl (ValueError (path @ (if length data < k + 8
                                     then '' is truncated (invalid chunk header)''
                                     else '' is truncated (invalid chunk length)''))) :: exn + parse_state"
  let ?walk = "chunk_offsets data (length PNG_SIGNATURE)"
  have at_k: "chunk_loop path data k st' = ?t" for st'
    by (rule chunk_loop_truncated_at [OF chunk_offsets_lt [OF assms(2)] assms(3)])
  from chunk_loop_reaches [OF assms(2), of path init_state]
  consider (arrives) "chunk_loop path data (length PNG_SIGNATURE) init_state = ?t"
    | (struct) "chunk_loop path data (length PNG_SIGNATURE) init_state =
                  Inl (StructError ''unpack requires a buffer of 13 bytes'')"
               "\<exists>j\<in>set ?walk. j \<noteq> k \<and> slice data (j + 4) (j + 8) = IHDR \<and>
                   be_uint (slice data j (j + 4)) \<noteq> 13"
    using at_k by auto
  then show ?thesis
  proof cases
    case arrives
    from png_chunk_error [OF assms(1) this] show ?thesis by simp
  next
    case struct
    from png_chunk_error [OF assms(1) struct(1)] struct(2) show ?thesis by auto
  qed
qed

theorem C9_truncated_container_witness:
  "33 \<in> set (chunk_offsets (truncated_png IDAT) (length PNG_SIGNATURE)) \<and>
   truncated_at (truncated_png IDAT) 33 \<and>
   png_has_transparency (\<lambda>_. Inr []) ''icon.png'' (truncated_png IDAT) =
     Inl (ValueError ''icon.png is truncated (invalid chunk length)'')"
proof -
  have s: "take (length PNG_SIGNATURE) (truncated_png IDAT) = PNG_SIGNATURE" by code_simp
  have k: "33 \<in> set (chunk_offsets (truncated_png IDAT) (length PNG_SIGNATURE))" by code_simp
  have t: "truncated_at (truncated_png IDAT) 33" by code_simp
  have h: "\<forall>j\<in>set (chunk_offsets (truncated_png IDAT) (length PNG_SIGNATURE)).
             j \<noteq> 33 \<longrightarrow> slice (truncated_png IDAT) (j + 4) (j + 8) = IHDR \<longrightarrow>
             be_uint (slice (truncated_png IDAT) j (j + 4)) = 13" by code_simp
  have n: "\<not> length (truncated_png IDAT) < 33 + 8" by code_simp
  from C9_truncated_container [OF s k t, of "\<lambda>_. Inr []" "''icon.png''", THEN conjunct2,
      THEN mp, OF h] n
  have "png_has_transparency (\<lambda>_. Inr []) ''icon.png'' (truncated_png IDAT) =
     Inl (ValueError ''icon.png is truncated (invalid chunk length)'')" by simp
  with k t show ?thesis by blast
qed

text \<open>
  Claim C9 as stated has the error name the offending chunk type, for every container.
  The message for a truncated IDAT chunk does not contain the text IDAT, and the same file
  with the chunk type tRNS in its place raises the same error.  And a container whose
  IHDR payload has 11 bytes and whose next chunk is truncated raises \<^verbatim>\<open>struct.error\<close>
  at the header, before the truncated chunk is read.
\<close>

theorem C9_chunk_type_not_named_counterexample:
  "map char_of IDAT = ''IDAT'' \<and>
   png_has_transparency (\<lambda>_. Inr []) ''icon.png'' (truncated_png IDAT) =
     Inl (ValueError ''icon.png is truncated (invalid chunk length)'') \<and>
   \<not> sublist ''IDAT'' ''icon.png is truncated (invalid chunk length)'' \<and>
   png_has_transparency (\<lambda>_. Inr []) ''icon.png'' (truncated_png tRNS) =
     png_has_transparency (\<lambda>_. Inr []) ''icon.png'' (truncated_png IDAT) \<and>
   31 \<in> set (chunk_offsets (truncated_after_header_png [0, 0, 0, 1, 0, 0, 0, 1, 8, 6, 0])
               (length PNG_SIGNATURE)) \<and>
   truncated_at (truncated_after_header_png [0, 0, 0, 1, 0, 0, 0, 1, 8, 6, 0]) 31 \<and>
   png_has_transparency (\<lambda>_. Inr []) ''icon.png''
       (truncated_after_header_png [0, 0, 0, 1, 0, 0, 0, 1, 8, 6, 0]) =
     Inl (StructError ''unpack requires a buffer of 13 bytes'')"
  by code_simp

text \<open>
  Claim C10, as amended.  When every chunk of the container, on the walk from the
  signature to the terminal chunk, fits into the buffer and none has type IHDR,
  \<^verbatim>\<open>png_has_transparency\<close> raises the ValueError "is missing IHDR".  When a chunk of the
  container is an IHDR chunk that fits into the buffer and whose payload is not 13 bytes
  long (4+4+1+1 and three ignored bytes), \<^verbatim>\<open>png_has_transparency\<close> raises
  \<^verbatim>\<open>struct.error\<close>, not the missing-header error.
\<close>

theorem C10_missing_header:
  "(take (length PNG_SIGNATURE) data = PNG_SIGNATURE \<and>
    (\<forall>j\<in>set (chunk_offsets data (length PNG_SIGNATURE)). \<not> truncated_at data j) \<and>
    IHDR \<notin> set (chunk_types data (length PNG_SIGNATURE)) \<longrightarrow>
      png_has_transparency inflate path data = Inl (ValueError (path @ '' is missing IHDR''))) \<and>
   (take (length PNG_SIGNATURE) data = PNG_SIGNATURE \<and>
    k \<in> set (chunk_offsets data (length PNG_SIGNATURE)) \<and> \<not> truncated_at data k \<and>
    slice data (k + 4) (k + 8) = IHDR \<and> be_uint (slice data k (k + 4)) \<noteq> 13 \<longrightarrow>
      png_has_transparency inflate path data =
        Inl (StructError ''unpack requires a buffer of 13 bytes''))"
proof (intro conjI impI; elim conjE)
  assume sig: "take (length PNG_SIGNATURE) data = PNG_SIGNATURE"
    and fit: "\<forall>j\<in>set (chunk_offsets data (length PNG_SIGNATURE)). \<not> truncated_at data j"
    and no: "IHDR \<notin> set (chunk_types data (length PNG_SIGNATURE))"
  from chunk_loop_completes [OF fit no, of path init_state] obtain st where
    run: "chunk_loop path data (length PNG_SIGNATURE) init_state = Inr st" by blast
  from chunk_loop_no_IHDR [OF run no] have "width st = None"
    by (simp add: same_header_def init_state_def)
  with sig run show "png_has_transparency inflate path data =
      Inl (ValueError (path @ '' is missing IHDR''))"
    by (simp add: png_has_transparency_def ebind_def)
next
  let ?e = "Inl (StructError ''unpack requires a buffer of 13 bytes'') :: exn + parse_state"
  assume sig: "take (length PNG_SIGNATURE) data = PNG_SIGNATURE"
    and k: "k \<in> set (chunk_offsets data (length PNG_SIGNATURE))"
    and full: "\<not> truncated_at data k"
    and ty: "slice data (k + 4) (k + 8) = IHDR" and len: "be_uint (slice data k (k + 4)) \<noteq> 13"
  have at_k: "chunk_loop path data k st' = ?e" for st'
    by (rule chunk_loop_short_IHDR [OF chunk_offsets_lt [OF k] full ty len])
  from chunk_loop_reaches [OF k, of path init_state] at_k
  have "chunk_loop path data (length PNG_SIGNATURE) init_state = ?e" by auto
  from png_chunk_error [OF sig this]
  show "png_has_transparency inflate path data =
          Inl (StructError ''unpack requires a buffer of 13 bytes'')" .
qed

theorem C10_missing_header_witness:
  "chunk_types headerless_png (length PNG_SIGNATURE) = [IDAT, IEND] \<and>
   png_has_transparency (\<lambda>_. Inr [0, 1, 2, 3, 4]) ''icon.png'' headerless_png =
     Inl (ValueError ''icon.png is missing IHDR'') \<and>
   chunk_offsets (header_png [0, 0, 0, 1, 0, 0, 0, 1, 8, 6, 0]) (length PNG_SIGNATURE) =
     [8, 31, 45] \<and>
   png_has_transparency (\<lambda>_. Inr [0, 1, 2, 3, 4]) ''icon.png''
       (header_png [0, 0, 0, 1, 0, 0, 0, 1, 8, 6, 0]) =
     Inl (StructError ''unpack requires a buffer of 13 bytes'')"
proof -
  let ?d = "header_png [0, 0, 0, 1, 0, 0, 0, 1, 8, 6, 0]"
  have s: "take (length PNG_SIGNATURE) headerless_png = PNG_SIGNATURE" by code_simp
  have f: "\<forall>j\<in>set (chunk_offsets headerless_png (length PNG_SIGNATURE)).
             \<not> truncated_at headerless_png j" by code_simp
  have t: "IHDR \<notin> set (chunk_types headerless_png (length PNG_SIGNATURE))" by code_simp
  have ts: "chunk_types headerless_png (length PNG_SIGNATURE) = [IDAT, IEND]" by code_simp
  have w: "chunk_offsets ?d (length PNG_SIGNATURE) = [8, 31, 45]" by code_simp
  have a: "take (length PNG_SIGNATURE) ?d = PNG_SIGNATURE"
    "8 \<in> set (chunk_offsets ?d (length PNG_SIGNATURE))"
    "\<not> truncated_at ?d 8"
    "slice ?d (8 + 4) (8 + 8) = IHDR"
    "be_uint (slice ?d 8 (8 + 4)) \<noteq> 13"
    by code_simp+
  note c = C10_missing_header [where data = headerless_png and path = "''icon.png''"
      and inflate = "\<lambda>_. Inr [0, 1, 2, 3, 4]", THEN conjunct1, THEN mp,
      OF conjI [OF s conjI [OF f t]]]
  note d = C10_missing_header [where data = ?d and k = 8 and path = "''icon.png''"
      and inflate = "\<lambda>_. Inr [0, 1, 2, 3, 4]", THEN conjunct2, THEN mp,
      OF conjI [OF a(1) conjI [OF a(2) conjI [OF a(3) conjI [OF a(4) a(5)]]]]]
  from c d w ts show ?thesis by simp
qed

text \<open>
  Claim C10 as stated has a header payload of the wrong size fail with the missing-header
  error, and gives the header 4+4+1+1+2 bytes.  A payload of 11 bytes, of the wrong size
  on either count, fails with \<^verbatim>\<open>struct.error\<close>; so does a payload of the 12 bytes of
  the claim's layout; and a payload of 13 bytes raises no header error.  A container with
  no IHDR chunk whose only chunk is truncated fails with the truncation error, raised
  before the header is looked for.
\<close>

theorem C10_short_header_counterexample:
  "length [0, 0, 0, 1, 0, 0, 0, 1, 8, 6, 0 :: nat] = 11 \<and>
   png_has_transparency (\<lambda>_. Inr [0, 1, 2, 3, 4]) ''icon.png''
       (header_png [0, 0, 0, 1, 0, 0, 0, 1, 8, 6, 0]) =
     Inl (StructError ''unpack requires a buffer of 13 bytes'') \<and>
   png_has_transparency (\<lambda>_. Inr [0, 1, 2, 3, 4]) ''icon.png''
       (header_png [0, 0, 0, 1, 0, 0, 0, 1, 8, 6, 0]) \<noteq>
     Inl (ValueError ''icon.png is missing IHDR'') \<and>
   length [0, 0, 0, 1, 0, 0, 0, 1, 8, 6, 0, 0 :: nat] = 4 + 4 + 1 + 1 + 2 \<and>
   png_has_transparency (\<lambda>_. Inr [0, 1, 2, 3, 4]) ''icon.png''
       (header_png [0, 0, 0, 1, 0, 0, 0, 1, 8, 6, 0, 0]) =
     Inl (StructError ''unpack requires a buffer of 13 bytes'') \<and>
   length [0, 0, 0, 1, 0, 0, 0, 1, 8, 6, 0, 0, 0 :: nat] = 13 \<and>
   png_has_transparency (\<lambda>_. Inr [0, 1, 2, 3, 4]) ''icon.png''
       (header_png [0, 0, 0, 1, 0, 0, 0, 1, 8, 6, 0, 0, 0]) = Inr True \<and>
   chunk_types (PNG_SIGNATURE @ [0, 0, 0, 5] @ IDAT @ [120, 156]) (length PNG_SIGNATURE) = [] \<and>
   png_has_transparency (\<lambda>_. Inr [0, 1, 2, 3, 4]) ''icon.png''
       (PNG_SIGNATURE @ [0, 0, 0, 5] @ IDAT @ [120, 156]) =
     Inl (ValueError ''icon.png is truncated (invalid chunk length)'')"
  by code_simp

end
